theory Spec2Isabelle
  imports Main
begin

text \<open>
  A shallow embedding of \<^verbatim>\<open>template.go\<close> of the pongo template engine: the
  position tracker and the lexer state machine that turn a source text into a list of
  content, filter and tag nodes, and the execution engine that renders the list with a
  cursor shared with the tag handlers.  The template is passed and returned where the
  Go code mutates it through its pointer.  The tag registry, the tag handlers and the
  expression compiler are defined in other files and are parameters here.
\<close>

section \<open>Go run-time behaviour used by the template engine\<close>

text \<open>
  A Go function either returns or panics (index out of range, slice bounds out of
  range, nil dereference).  No function of \<^verbatim>\<open>template.go\<close> recovers from a
  panic, so a panic carries no state.  \<open>result\<close> reads the value of a call that
  returned.
\<close>

datatype 'a outcome = Returned (result: 'a) | Panicked

text \<open>\<^verbatim>\<open>xs[i]\<close> on a string or slice, with Go's bounds check.\<close>

definition index_at :: "'a list \<Rightarrow> int \<Rightarrow> 'a outcome" where
  "index_at xs i =
     (if 0 \<le> i \<and> i < int (length xs) then Returned (xs ! nat i) else Panicked)"

text \<open>\<^verbatim>\<open>s[lo:hi]\<close> on a string, with Go's bounds check.\<close>

definition slice :: "string \<Rightarrow> int \<Rightarrow> int \<Rightarrow> string outcome" where
  "slice s lo hi =
     (if 0 \<le> lo \<and> lo \<le> hi \<and> hi \<le> int (length s)
      then Returned (take (nat (hi - lo)) (drop (nat lo) s)) else Panicked)"

subsection \<open>\<^verbatim>\<open>strings.TrimSpace\<close>, \<^verbatim>\<open>strings.SplitN\<close>, \<^verbatim>\<open>%c\<close>\<close>

text \<open>
  \<^verbatim>\<open>strings.TrimSpace\<close> removes leading and trailing white space as defined by
  Unicode (\<^verbatim>\<open>unicode.IsSpace\<close>).  A Go string is a byte sequence; the white-space
  code points are listed here by their UTF-8 encodings: U+0009..U+000D, U+0020, U+0085,
  U+00A0, U+1680, U+2000..U+200A, U+2028, U+2029, U+202F, U+205F, U+3000.
\<close>

definition spaceRunes :: "string list" where
  "spaceRunes =
     [[CHR 0x09], [CHR 0x0A], [CHR 0x0B], [CHR 0x0C], [CHR 0x0D], [CHR 0x20],
      [CHR 0xC2, CHR 0x85], [CHR 0xC2, CHR 0xA0],
      [CHR 0xE1, CHR 0x9A, CHR 0x80],
      [CHR 0xE2, CHR 0x80, CHR 0x80], [CHR 0xE2, CHR 0x80, CHR 0x81],
      [CHR 0xE2, CHR 0x80, CHR 0x82], [CHR 0xE2, CHR 0x80, CHR 0x83],
      [CHR 0xE2, CHR 0x80, CHR 0x84], [CHR 0xE2, CHR 0x80, CHR 0x85],
      [CHR 0xE2, CHR 0x80, CHR 0x86], [CHR 0xE2, CHR 0x80, CHR 0x87],
      [CHR 0xE2, CHR 0x80, CHR 0x88], [CHR 0xE2, CHR 0x80, CHR 0x89],
      [CHR 0xE2, CHR 0x80, CHR 0x8A],
      [CHR 0xE2, CHR 0x80, CHR 0xA8], [CHR 0xE2, CHR 0x80, CHR 0xA9],
      [CHR 0xE2, CHR 0x80, CHR 0xAF],
      [CHR 0xE2, CHR 0x81, CHR 0x9F],
      [CHR 0xE3, CHR 0x80, CHR 0x80]]"

text \<open>Strip, from the front of \<open>s\<close>, every leading occurrence of one of the byte
  sequences \<open>ws\<close>.\<close>

function trimLeftSeqs :: "string list \<Rightarrow> string \<Rightarrow> string" where
  "trimLeftSeqs ws s =
     (case find (\<lambda>w. w \<noteq> [] \<and> take (length w) s = w) ws of
        None \<Rightarrow> s
      | Some w \<Rightarrow> trimLeftSeqs ws (drop (length w) s))"
  by pat_completeness auto
termination
proof (relation "measure (\<lambda>(ws, s). length s)")
  show "wf (measure (\<lambda>(ws, s). length s))" by simp
next
  fix ws :: "string list" and s w :: string
  assume "find (\<lambda>w. w \<noteq> [] \<and> take (length w) s = w) ws = Some w"
  then have w: "w \<noteq> []" "take (length w) s = w"
    by (auto simp: find_Some_iff)
  then have "s \<noteq> []" by auto
  with w show "((ws, drop (length w) s), (ws, s)) \<in> measure (\<lambda>(ws, s). length s)"
    by simp
qed

declare trimLeftSeqs.simps [simp del]

definition TrimSpace :: "string \<Rightarrow> string" where
  "TrimSpace s =
     rev (trimLeftSeqs (map rev spaceRunes) (rev (trimLeftSeqs spaceRunes s)))"

text \<open>\<^verbatim>\<open>strings.SplitN(s, " ", 2)\<close>: at most two pieces, cut at the first space byte.\<close>

definition SplitN2 :: "string \<Rightarrow> string list" where
  "SplitN2 s =
     (if CHR 0x20 \<in> set s
      then [takeWhile (\<lambda>c. c \<noteq> CHR 0x20) s, tl (dropWhile (\<lambda>c. c \<noteq> CHR 0x20) s)]
      else [s])"

text \<open>The verb \<^verbatim>\<open>%c\<close> applied to a byte prints the code point of that value in
  UTF-8: one byte below 0x80, two bytes from 0x80 on.\<close>

definition fmt_c :: "char \<Rightarrow> string" where
  "fmt_c c =
     (let n = (of_char c :: nat)
      in if n < 128 then [c]
         else [char_of (192 + n div 64), char_of (128 + n mod 64)])"

section \<open>Data model\<close>

text \<open>
  Errors.  \<^verbatim>\<open>errors.New(s)\<close> with a fixed or external text is \<open>Message s\<close>; the
  other constructors keep the arguments of the \<^verbatim>\<open>fmt.Sprintf\<close> calls apart:
  \<^item> \<open>ParsingError name line col err\<close>:
    \<^verbatim>\<open>"[Parsing error: %s] [Line %d, Column %d] %s"\<close>
  \<^item> \<open>ExecutionError name line col content err\<close>:
    \<^verbatim>\<open>"[Error: %s] [Line %d Col %d (%s)] %s"\<close>
  \<^item> \<open>BlockExecutionError name line col content err\<close>:
    \<^verbatim>\<open>"[Error in block-execution: %s] [Line %d Col %d (%s)] %s"\<close>
  \<^item> \<open>NoEndNode nodenames\<close>: \<^verbatim>\<open>"No end-node (possible nodes: %v) found."\<close>
  \<^item> \<open>UnhandledPlaceholder tagname\<close>:
    \<^verbatim>\<open>"Unhandled placeholder (for example 'endif' for an if-clause): '%s'"\<close>
\<close>

datatype error =
    Message string
  | ParsingError string int int string
  | ExecutionError string int int string error
  | BlockExecutionError string int int string error
  | NoEndNode "string list"
  | UnhandledPlaceholder string

text \<open>
  The three node structs.  \<open>'h\<close> is a reference to a \<^verbatim>\<open>TagHandler\<close> (a pointer
  into the tag registry, \<open>None\<close> for the nil pointer); \<open>'e\<close> is a compiled expression.
  The selectors \<open>getLine\<close>, \<open>getCol\<close> and \<open>getContent\<close> are the methods of the
  \<^verbatim>\<open>node\<close> interface.  The fields \<^verbatim>\<open>ident\<close> and \<^verbatim>\<open>args\<close> of \<^verbatim>\<open>tagNode\<close> are never
  written or read and are left out.
\<close>

datatype ('h, 'e) node =
    ContentNode (getLine: int) (getCol: int) (getContent: string)
  | FilterNode (getLine: int) (getCol: int) (getContent: string) (filter_e: 'e)
  | TagNode (getLine: int) (getCol: int) (getContent: string)
      (tagname: string) (tagargs: string) (taghandler: "'h option")

text \<open>
  Modelled from the spec: the declaration of \<^verbatim>\<open>Context\<close> is not part of
  \<^verbatim>\<open>template.go\<close>; the spec calls it a mapping from variable name to value, and the
  code builds it with \<^verbatim>\<open>make(Context)\<close> and compares it with nil.  \<open>None\<close> is the
  nil map.
\<close>

type_synonym 'v Context = "(string \<rightharpoonup> 'v) option"

type_synonym templateLocator = "string \<Rightarrow> string option \<times> error option"

text \<open>The \<^verbatim>\<open>Template\<close> struct.  Go's \<^verbatim>\<open>int\<close> is modelled by \<open>int\<close>: every
  integer field is bounded by the length of the source text or of the node list, far
  from the 64-bit limit.  The field \<^verbatim>\<open>length\<close> is \<open>length_tpl\<close>.\<close>

record ('h, 'e, 'v) Template =
  name :: string
  parsed :: bool
  raw :: string
  rawLen :: int
  pos :: int
  start :: int
  length_tpl :: int
  err :: string
  line :: int
  col :: int
  autosafe :: bool
  nodes :: "('h, 'e) node list"
  node_pos :: int
  locator :: "templateLocator option"
  internal_context :: "'v Context"

text \<open>
  Modelled from the spec: the collaborators that \<^verbatim>\<open>template.go\<close> calls but does
  not define (the tag registry \<^verbatim>\<open>Tags\<close>, the struct \<^verbatim>\<open>TagHandler\<close> with its
  fields \<^verbatim>\<open>Execute\<close> and \<^verbatim>\<open>Ignore\<close>, and the expression compiler with
  \<^verbatim>\<open>newExpr\<close>, \<^verbatim>\<open>addFilter\<close> and \<^verbatim>\<open>evalString\<close>) are parameters.
  \<^item> \<open>Tags\<close> maps a tag name to a handler reference, which may be nil.
  \<^item> \<open>newExpr\<close> returns the text of its error (\<open>Inl\<close>) or the compiled expression.
  \<^item> \<open>evalString\<close> and \<open>tagExecute\<close> return Go's pair of a string pointer and an
    error, and the context (and template) they leave behind; they receive both by
    pointer.
  \<^item> \<open>tagIgnore\<close> is the optional \<^verbatim>\<open>Ignore\<close> field; its result is discarded by
    the caller, so only the template it leaves behind is kept.
  A call of a collaborator is taken to return; what it does to the template and the
  context is not restricted.
\<close>

record ('h, 'e, 'v) externals =
  Tags :: "string \<rightharpoonup> 'h option"
  newExpr :: "string \<Rightarrow> string + 'e"
  addFilter :: "'e \<Rightarrow> string \<Rightarrow> 'e"
  evalString :: "'e \<Rightarrow> 'v Context \<Rightarrow> (string option \<times> error option) \<times> 'v Context"
  tagExecute :: "'h \<Rightarrow> string \<Rightarrow> ('h, 'e, 'v) Template \<Rightarrow> 'v Context
                 \<Rightarrow> (string option \<times> error option) \<times> ('h, 'e, 'v) Template \<times> 'v Context"
  tagIgnore :: "'h \<Rightarrow> (string \<Rightarrow> ('h, 'e, 'v) Template \<Rightarrow> ('h, 'e, 'v) Template) option"

section \<open>Position tracker\<close>

definition hasReachedEnd :: "('h, 'e, 'v) Template \<Rightarrow> int \<Rightarrow> bool" where
  "hasReachedEnd tpl rel = (pos tpl + rel \<ge> rawLen tpl)"

text \<open>\<open>Returned None\<close> is Go's \<^verbatim>\<open>(0, false)\<close>.\<close>

definition getChar :: "('h, 'e, 'v) Template \<Rightarrow> int \<Rightarrow> char option outcome" where
  "getChar tpl rel =
     (if hasReachedEnd tpl rel then Returned None
      else case index_at (raw tpl) (pos tpl + rel) of
             Panicked \<Rightarrow> Panicked
           | Returned c \<Rightarrow> Returned (Some c))"

definition updatePosition ::
  "('h, 'e, 'v) Template \<Rightarrow> (bool \<times> ('h, 'e, 'v) Template) outcome" where
  "updatePosition tpl =
     (if hasReachedEnd tpl 0 then Returned (False, tpl)
      else case index_at (raw tpl) (pos tpl) of
             Panicked \<Rightarrow> Panicked
           | Returned c \<Rightarrow>
               if c = CHR 0x0A
               then Returned (True, tpl\<lparr>line := line tpl + 1, col := 0\<rparr>)
               else Returned (True, tpl\<lparr>col := col tpl + 1\<rparr>))"

text \<open>The loop \<^verbatim>\<open>for x := 0; x < rel; x++\<close>; \<open>rel\<close> is the number of rounds left.\<close>

fun fastForward ::
  "('h, 'e, 'v) Template \<Rightarrow> nat \<Rightarrow> (bool \<times> ('h, 'e, 'v) Template) outcome" where
  "fastForward tpl 0 = Returned (True, tpl)"
| "fastForward tpl (Suc rel) =
     (case updatePosition (tpl\<lparr>pos := pos tpl + 1\<rparr>) of
        Panicked \<Rightarrow> Panicked
      | Returned (ok, tpl') \<Rightarrow>
          if \<not> ok then Returned (False, tpl') else fastForward tpl' rel)"

section \<open>Parser glue: emitting nodes\<close>

definition addContentNode :: "('h, 'e, 'v) Template \<Rightarrow> ('h, 'e, 'v) Template outcome" where
  "addContentNode tpl =
     (if length_tpl tpl = 0 then Returned tpl
      else case slice (raw tpl) (start tpl) (start tpl + length_tpl tpl) of
             Panicked \<Rightarrow> Panicked
           | Returned s \<Rightarrow>
               Returned (tpl\<lparr>start := pos tpl, length_tpl := 0,
                             nodes := nodes tpl @ [ContentNode (line tpl) (col tpl) s]\<rparr>))"

text \<open>\<^verbatim>\<open>addFilterNode\<close> and \<^verbatim>\<open>addTagNode\<close> return an error of which the caller
  reads the text only (\<^verbatim>\<open>err.Error()\<close>); the result is that text, \<open>None\<close> for nil.\<close>

definition addFilterNode :: "('h, 'e, 'v) externals \<Rightarrow> ('h, 'e, 'v) Template
    \<Rightarrow> (string option \<times> ('h, 'e, 'v) Template) outcome" where
  "addFilterNode X tpl =
     (if length_tpl tpl = 0 then Returned (Some ''Empty filter'', tpl)
      else case slice (raw tpl) (start tpl) (start tpl + length_tpl tpl) of
             Panicked \<Rightarrow> Panicked
           | Returned s \<Rightarrow>
               let content = TrimSpace s
               in case newExpr X content of
                    Inl msg \<Rightarrow> Returned (Some msg, tpl)
                  | Inr ex \<Rightarrow>
                      let ex' = (if autosafe tpl then addFilter X ex ''safe'' else ex)
                      in Returned (None,
                           tpl\<lparr>start := pos tpl, length_tpl := 0,
                               nodes := nodes tpl @ [FilterNode (line tpl) (col tpl) content ex']\<rparr>))"

definition addTagNode :: "('h, 'e, 'v) externals \<Rightarrow> ('h, 'e, 'v) Template
    \<Rightarrow> (string option \<times> ('h, 'e, 'v) Template) outcome" where
  "addTagNode X tpl =
     (if length_tpl tpl = 0 then Returned (Some ''Empty tag'', tpl)
      else case slice (raw tpl) (start tpl) (start tpl + length_tpl tpl) of
             Panicked \<Rightarrow> Panicked
           | Returned s \<Rightarrow>
               let content = TrimSpace s
               in case SplitN2 content of
                    [] \<Rightarrow> Returned (Some ''Tag must contain at least a name'', tpl)
                  | tn # rest \<Rightarrow>
                      let ta = (case rest of [a] \<Rightarrow> a | _ \<Rightarrow> [])
                      in case Tags X tn of
                           None \<Rightarrow>
                             Returned (Some (''Tag '' @ [CHR 0x27] @ tn @ [CHR 0x27]
                                               @ '' does not exist''), tpl)
                         | Some tag \<Rightarrow>
                             Returned (None,
                               tpl\<lparr>start := pos tpl, length_tpl := 0,
                                   nodes := nodes tpl @
                                     [TagNode (line tpl) (col tpl) content tn (TrimSpace ta) tag]\<rparr>))"

section \<open>Lexer state machine\<close>

text \<open>A \<^verbatim>\<open>stateFunc\<close> value is one of the four scanning functions; nil is \<open>None\<close>.\<close>

datatype stateFunc = ProcessContent | ProcessComment | ProcessFilter | ProcessTag

type_synonym ('h, 'e, 'v) step =
  "(stateFunc option \<times> ('h, 'e, 'v) Template) outcome"

definition processComment :: "('h, 'e, 'v) Template \<Rightarrow> ('h, 'e, 'v) step" where
  "processComment tpl =
     (let advance = (case fastForward tpl 1 of
                       Panicked \<Rightarrow> Panicked
                     | Returned (_, tpl') \<Rightarrow> Returned (Some ProcessComment, tpl'))
      in case getChar tpl 0 of
           Panicked \<Rightarrow> Panicked
         | Returned None \<Rightarrow>
             Returned (None, tpl\<lparr>err := ''File end reached within comment''\<rparr>)
         | Returned (Some c) \<Rightarrow>
             if c = CHR ''#'' then
               (case getChar tpl 1 of
                  Panicked \<Rightarrow> Panicked
                | Returned None \<Rightarrow>
                    Returned (None, tpl\<lparr>err := ''File end reached within comment''\<rparr>)
                | Returned (Some nc) \<Rightarrow>
                    if nc = CHR ''}'' then
                      (case fastForward tpl 2 of
                         Panicked \<Rightarrow> Panicked
                       | Returned (_, tpl') \<Rightarrow>
                           Returned (Some ProcessContent, tpl'\<lparr>start := pos tpl'\<rparr>))
                    else advance)
             else advance)"

definition processFilter ::
  "('h, 'e, 'v) externals \<Rightarrow> ('h, 'e, 'v) Template \<Rightarrow> ('h, 'e, 'v) step" where
  "processFilter X tpl =
     (let advance = (case fastForward (tpl\<lparr>length_tpl := length_tpl tpl + 1\<rparr>) 1 of
                       Panicked \<Rightarrow> Panicked
                     | Returned (_, tpl') \<Rightarrow> Returned (Some ProcessFilter, tpl'))
      in case getChar tpl 0 of
           Panicked \<Rightarrow> Panicked
         | Returned None \<Rightarrow>
             Returned (None, tpl\<lparr>err := ''File end reached within filter''\<rparr>)
         | Returned (Some c) \<Rightarrow>
             if c = CHR ''}'' then
               (case getChar tpl 1 of
                  Panicked \<Rightarrow> Panicked
                | Returned None \<Rightarrow>
                    Returned (None, tpl\<lparr>err := ''File end reached within filter''\<rparr>)
                | Returned (Some nc) \<Rightarrow>
                    if nc = CHR ''}'' then
                      (case addFilterNode X tpl of
                         Panicked \<Rightarrow> Panicked
                       | Returned (Some msg, tpl1) \<Rightarrow> Returned (None, tpl1\<lparr>err := msg\<rparr>)
                       | Returned (None, tpl1) \<Rightarrow>
                           (case fastForward tpl1 2 of
                              Panicked \<Rightarrow> Panicked
                            | Returned (_, tpl') \<Rightarrow>
                                Returned (Some ProcessContent, tpl'\<lparr>start := pos tpl'\<rparr>)))
                    else advance)
             else advance)"

definition processTag ::
  "('h, 'e, 'v) externals \<Rightarrow> ('h, 'e, 'v) Template \<Rightarrow> ('h, 'e, 'v) step" where
  "processTag X tpl =
     (let advance = (case fastForward (tpl\<lparr>length_tpl := length_tpl tpl + 1\<rparr>) 1 of
                       Panicked \<Rightarrow> Panicked
                     | Returned (_, tpl') \<Rightarrow> Returned (Some ProcessTag, tpl'))
      in case getChar tpl 0 of
           Panicked \<Rightarrow> Panicked
         | Returned None \<Rightarrow>
             Returned (None, tpl\<lparr>err := ''File end reached within tag''\<rparr>)
         | Returned (Some c) \<Rightarrow>
             if c = CHR ''%'' then
               (case getChar tpl 1 of
                  Panicked \<Rightarrow> Panicked
                | Returned None \<Rightarrow>
                    Returned (None, tpl\<lparr>err := ''File end reached within tag''\<rparr>)
                | Returned (Some nc) \<Rightarrow>
                    if nc = CHR ''}'' then
                      (case addTagNode X tpl of
                         Panicked \<Rightarrow> Panicked
                       | Returned (Some msg, tpl1) \<Rightarrow> Returned (None, tpl1\<lparr>err := msg\<rparr>)
                       | Returned (None, tpl1) \<Rightarrow>
                           (case fastForward tpl1 2 of
                              Panicked \<Rightarrow> Panicked
                            | Returned (_, tpl') \<Rightarrow>
                                Returned (Some ProcessContent, tpl'\<lparr>start := pos tpl'\<rparr>)))
                    else advance)
             else advance)"

text \<open>After \<^verbatim>\<open>{#\<close>, \<^verbatim>\<open>{%\<close> or \<^verbatim>\<open>{{\<close>: the body of each \<^verbatim>\<open>case\<close> of the
  switch in \<^verbatim>\<open>processContent\<close> (flush the literal, restart the capture, enter
  state \<open>s\<close>).\<close>

definition openRegion ::
  "stateFunc \<Rightarrow> ('h, 'e, 'v) Template \<Rightarrow> ('h, 'e, 'v) step" where
  "openRegion s tpl =
     (case addContentNode tpl of
        Panicked \<Rightarrow> Panicked
      | Returned tpl' \<Rightarrow> Returned (Some s, tpl'\<lparr>start := pos tpl'\<rparr>))"

definition processContent :: "('h, 'e, 'v) Template \<Rightarrow> ('h, 'e, 'v) step" where
  "processContent tpl =
     (case getChar tpl 0 of
        Panicked \<Rightarrow> Panicked
      | Returned None \<Rightarrow>
          (case addContentNode tpl of
             Panicked \<Rightarrow> Panicked
           | Returned tpl' \<Rightarrow> Returned (None, tpl'))
      | Returned (Some c) \<Rightarrow>
          if c = CHR ''{'' then
            (case getChar tpl 1 of
               Panicked \<Rightarrow> Panicked
             | Returned None \<Rightarrow>
                 Returned (None, tpl\<lparr>err := ''File end reached (after opening '' @ [CHR 0x27]
                                              @ ''{'' @ [CHR 0x27] @ '')''\<rparr>)
             | Returned (Some nc) \<Rightarrow>
                 (case fastForward tpl 2 of
                    Panicked \<Rightarrow> Panicked
                  | Returned (_, tpl2) \<Rightarrow>
                      if nc = CHR ''#'' then openRegion ProcessComment tpl2
                      else if nc = CHR ''%'' then openRegion ProcessTag tpl2
                      else if nc = CHR ''{'' then openRegion ProcessFilter tpl2
                      else Returned (None,
                             tpl2\<lparr>err := ''Unknown open command ('' @ [CHR 0x27] @ fmt_c nc
                                           @ [CHR 0x27] @ '').''\<rparr>)))
          else
            (case fastForward (tpl\<lparr>length_tpl := length_tpl tpl + 1\<rparr>) 1 of
               Panicked \<Rightarrow> Panicked
             | Returned (_, tpl') \<Rightarrow> Returned (Some ProcessContent, tpl')))"

text \<open>Calling a \<^verbatim>\<open>stateFunc\<close> value.\<close>

fun callState ::
  "('h, 'e, 'v) externals \<Rightarrow> stateFunc \<Rightarrow> ('h, 'e, 'v) Template \<Rightarrow> ('h, 'e, 'v) step" where
  "callState X ProcessContent tpl = processContent tpl"
| "callState X ProcessComment tpl = processComment tpl"
| "callState X ProcessFilter tpl = processFilter X tpl"
| "callState X ProcessTag tpl = processTag X tpl"

subsection \<open>The lexer loop\<close>

lemma updatePosition_frame:
  "updatePosition tpl = Returned (ok, tpl') \<Longrightarrow> pos tpl' = pos tpl \<and> rawLen tpl' = rawLen tpl"
  by (auto simp: updatePosition_def split: if_splits outcome.splits)

lemma fastForward_frame:
  "fastForward tpl n = Returned (ok, tpl') \<Longrightarrow>
     rawLen tpl' = rawLen tpl \<and> pos tpl \<le> pos tpl' \<and> (0 < n \<longrightarrow> pos tpl < pos tpl')"
proof (induction n arbitrary: tpl)
  case 0
  then show ?case by simp
next
  case (Suc n)
  from Suc.prems obtain b t1 where
    u: "updatePosition (tpl\<lparr>pos := pos tpl + 1\<rparr>) = Returned (b, t1)"
    and r: "(if \<not> b then Returned (False, t1) else fastForward t1 n) = Returned (ok, tpl')"
    by (auto split: outcome.splits prod.splits)
  from updatePosition_frame[OF u] have f: "pos t1 = pos tpl + 1" "rawLen t1 = rawLen tpl"
    by simp_all
  show ?case
  proof (cases b)
    case True
    with r have "fastForward t1 n = Returned (ok, tpl')" by simp
    from Suc.IH[OF this] f show ?thesis by simp
  next
    case False
    with r have "tpl' = t1" by simp
    with f show ?thesis by simp
  qed
qed

lemma addContentNode_frame:
  "addContentNode tpl = Returned tpl' \<Longrightarrow> pos tpl' = pos tpl \<and> rawLen tpl' = rawLen tpl"
  by (auto simp: addContentNode_def split: if_splits outcome.splits)

lemma addFilterNode_frame:
  "addFilterNode X tpl = Returned (r, tpl') \<Longrightarrow> pos tpl' = pos tpl \<and> rawLen tpl' = rawLen tpl"
  by (auto simp: addFilterNode_def Let_def split: if_splits outcome.splits sum.splits)

lemma addTagNode_frame:
  "addTagNode X tpl = Returned (r, tpl') \<Longrightarrow> pos tpl' = pos tpl \<and> rawLen tpl' = rawLen tpl"
  by (auto simp: addTagNode_def Let_def split: if_splits outcome.splits list.splits option.splits)

declare fastForward.simps [simp del]

lemma getChar_Some_less: "getChar tpl 0 = Returned (Some c) \<Longrightarrow> pos tpl < rawLen tpl"
  by (auto simp: getChar_def hasReachedEnd_def split: if_splits outcome.splits)

lemma processComment_progress:
  "processComment tpl = Returned (Some s, tpl') \<Longrightarrow>
     rawLen tpl' = rawLen tpl \<and> pos tpl < pos tpl' \<and> pos tpl < rawLen tpl"
  unfolding processComment_def Let_def
  by (auto split: outcome.splits option.splits if_splits prod.splits
      dest!: fastForward_frame getChar_Some_less)

lemma processFilter_progress:
  "processFilter X tpl = Returned (Some s, tpl') \<Longrightarrow>
     rawLen tpl' = rawLen tpl \<and> pos tpl < pos tpl' \<and> pos tpl < rawLen tpl"
  unfolding processFilter_def Let_def
  by (auto split: outcome.splits option.splits if_splits prod.splits
      dest!: fastForward_frame getChar_Some_less addFilterNode_frame)

lemma processTag_progress:
  "processTag X tpl = Returned (Some s, tpl') \<Longrightarrow>
     rawLen tpl' = rawLen tpl \<and> pos tpl < pos tpl' \<and> pos tpl < rawLen tpl"
  unfolding processTag_def Let_def
  by (auto split: outcome.splits option.splits if_splits prod.splits
      dest!: fastForward_frame getChar_Some_less addTagNode_frame)

lemma processContent_progress:
  "processContent tpl = Returned (Some s, tpl') \<Longrightarrow>
     rawLen tpl' = rawLen tpl \<and> pos tpl < pos tpl' \<and> pos tpl < rawLen tpl"
  unfolding processContent_def openRegion_def
  by (auto split: outcome.splits option.splits if_splits prod.splits
      dest!: fastForward_frame getChar_Some_less addContentNode_frame)

lemma callState_progress:
  "callState X s tpl = Returned (Some s', tpl') \<Longrightarrow>
     nat (rawLen tpl' - pos tpl') < nat (rawLen tpl - pos tpl)"
  by (cases s)
     (auto dest!: processContent_progress processComment_progress
                  processFilter_progress processTag_progress)

text \<open>The loop \<^verbatim>\<open>state := processContent(tpl); for state != nil { state = state(tpl) }\<close>
  of \<^verbatim>\<open>parse\<close>, started in state \<open>s\<close>.  Every round that goes on has moved
  \<^verbatim>\<open>pos\<close> towards \<^verbatim>\<open>rawLen\<close>, so the loop ends.\<close>

function runStates ::
  "('h, 'e, 'v) externals \<Rightarrow> stateFunc \<Rightarrow> ('h, 'e, 'v) Template
     \<Rightarrow> ('h, 'e, 'v) Template outcome" where
  "runStates X s tpl =
     (case callState X s tpl of
        Panicked \<Rightarrow> Panicked
      | Returned (None, tpl') \<Rightarrow> Returned tpl'
      | Returned (Some s', tpl') \<Rightarrow> runStates X s' tpl')"
  by pat_completeness auto
termination
  by (relation "measure (\<lambda>(X, s, tpl). nat (rawLen tpl - pos tpl))")
     (auto dest: callState_progress)


declare runStates.simps [simp del]

section \<open>Template handle: construction and parsing\<close>

text \<open>Go's \<^verbatim>\<open>(*Template, error)\<close>: a pair of a pointer and an error, nil as \<open>None\<close>.\<close>

definition newTemplate :: "string \<Rightarrow> string \<Rightarrow> templateLocator option
    \<Rightarrow> ('h, 'e, 'v) Template option \<times> error option" where
  "newTemplate nm tplstr loc =
     (let tplLen = int (length tplstr)
      in if tplLen = 0 then (None, Some (Message ''Template has no content''))
         else (Some \<lparr>name = nm, parsed = False, raw = tplstr, rawLen = tplLen,
                      pos = 0, start = 0, length_tpl = 0, err = [],
                      line = 1, col = 0, autosafe = True, nodes = [], node_pos = 0,
                      locator = loc, internal_context = Some Map.empty\<rparr>, None))"

definition parse :: "('h, 'e, 'v) externals \<Rightarrow> ('h, 'e, 'v) Template
    \<Rightarrow> (error option \<times> ('h, 'e, 'v) Template) outcome" where
  "parse X tpl =
     (if parsed tpl then Returned (None, tpl)
      else case updatePosition tpl of
             Panicked \<Rightarrow> Panicked
           | Returned (_, tpl1) \<Rightarrow>
               (case runStates X ProcessContent tpl1 of
                  Panicked \<Rightarrow> Panicked
                | Returned tpl2 \<Rightarrow>
                    if length (err tpl2) > 0
                    then Returned (Some (ParsingError (name tpl2) (line tpl2) (col tpl2)
                                           (err tpl2)), tpl2)
                    else Returned (None, tpl2\<lparr>parsed := True\<rparr>)))"

definition setInternalContext ::
  "('h, 'e, 'v) Template \<Rightarrow> 'v Context \<Rightarrow> ('h, 'e, 'v) Template" where
  "setInternalContext tpl ctx = tpl\<lparr>internal_context := ctx\<rparr>"

definition FromString :: "('h, 'e, 'v) externals \<Rightarrow> string \<Rightarrow> string
    \<Rightarrow> templateLocator option \<Rightarrow> (('h, 'e, 'v) Template option \<times> error option) outcome" where
  "FromString X nm tplstr loc =
     (case newTemplate nm tplstr loc of
        (_, Some e) \<Rightarrow> Returned (None, Some e)
      | (None, None) \<Rightarrow> Panicked
      | (Some tpl, None) \<Rightarrow>
          (case parse X tpl of
             Panicked \<Rightarrow> Panicked
           | Returned (Some e, _) \<Rightarrow> Returned (None, Some e)
           | Returned (None, tpl') \<Rightarrow> Returned (Some tpl', None)))"

text \<open>\<^verbatim>\<open>FromFile\<close> reads the source from the file system, builds a default locator
  and then goes on as \<^verbatim>\<open>FromString\<close> does; it is not modelled.\<close>

section \<open>Execution engine\<close>

text \<open>The result of a node's \<^verbatim>\<open>execute\<close>: Go's \<^verbatim>\<open>(*string, error)\<close>, and the
  template and context as the call leaves them (both are passed by pointer).\<close>

type_synonym ('h, 'e, 'v) rendered =
  "(string option \<times> error option) \<times> ('h, 'e, 'v) Template \<times> 'v Context"

text \<open>The three \<^verbatim>\<open>execute\<close> methods, dispatched on the node kind as the
  \<^verbatim>\<open>node\<close> interface does: \<^verbatim>\<open>contentNode.execute\<close>, \<^verbatim>\<open>filterNode.execute\<close>
  and \<^verbatim>\<open>tagNode.execute\<close>.\<close>

fun execute :: "('h, 'e, 'v) externals \<Rightarrow> ('h, 'e) node \<Rightarrow> ('h, 'e, 'v) Template
    \<Rightarrow> 'v Context \<Rightarrow> ('h, 'e, 'v) rendered" where
  "execute X (ContentNode l c s) tpl ctx = ((Some s, None), tpl, ctx)"
| "execute X (FilterNode l c s ex) tpl ctx =
     (case evalString X ex ctx of (out, ctx') \<Rightarrow> (out, tpl, ctx'))"
| "execute X (TagNode l c s tn ta th) tpl ctx =
     (case th of
        None \<Rightarrow> ((None, Some (UnhandledPlaceholder tn)), tpl, ctx)
      | Some h \<Rightarrow> tagExecute X h ta tpl ctx)"

text \<open>The loop of \<^verbatim>\<open>Execute\<close>.  A tag handler may move the cursor anywhere, so
  the loop need not end: \<open>None\<close> is the run that never returns.  Dereferencing the
  nil string of a handler that returns \<^verbatim>\<open>(nil, nil)\<close> panics.  No code writes a
  field of a node once the node is built, so the line, column and text that the error
  message reads from the node after the call are those of the node before the call.\<close>

partial_function (option) ExecuteLoop :: "('h, 'e, 'v) externals \<Rightarrow> ('h, 'e, 'v) Template
    \<Rightarrow> 'v Context \<Rightarrow> string list \<Rightarrow> ('h, 'e, 'v) rendered outcome option" where
  "ExecuteLoop X tpl ctx renderedStrings =
     (if node_pos tpl < int (length (nodes tpl)) then
        (case index_at (nodes tpl) (node_pos tpl) of
           Panicked \<Rightarrow> Some Panicked
         | Returned node \<Rightarrow>
             (case execute X node tpl ctx of
                ((_, Some e), tpl', ctx') \<Rightarrow>
                  Some (Returned ((None, Some (ExecutionError (name tpl') (getLine node)
                                     (getCol node) (getContent node) e)), tpl', ctx'))
              | ((None, None), _, _) \<Rightarrow> Some Panicked
              | ((Some str, None), tpl', ctx') \<Rightarrow>
                  ExecuteLoop X (tpl'\<lparr>node_pos := node_pos tpl' + 1\<rparr>) ctx'
                    (renderedStrings @ [str])))
      else Some (Returned ((Some (concat renderedStrings), None), tpl, ctx)))"

declare ExecuteLoop.simps [code]

text \<open>\<^verbatim>\<open>Execute\<close>.  A nil context is replaced by a fresh empty one, local to the
  call: the caller's context is then still nil afterwards.\<close>

definition Execute :: "('h, 'e, 'v) externals \<Rightarrow> ('h, 'e, 'v) Template \<Rightarrow> 'v Context
    \<Rightarrow> ('h, 'e, 'v) rendered outcome option" where
  "Execute X tpl ctx =
     (if ctx = None
      then (case ExecuteLoop X tpl (Some Map.empty) [] of
              Some (Returned (out, tpl', _)) \<Rightarrow> Some (Returned (out, tpl', ctx))
            | r \<Rightarrow> r)
      else ExecuteLoop X tpl ctx [])"

text \<open>The test \<^verbatim>\<open>tn, is_tag := node.(*tagNode)\<close> followed by the search of
  \<^verbatim>\<open>tn.tagname\<close> in \<^verbatim>\<open>nodenames\<close>.\<close>

definition isEndNode :: "('h, 'e) node \<Rightarrow> string list \<Rightarrow> bool" where
  "isEndNode node nodenames =
     (case node of TagNode _ _ _ tn _ _ \<Rightarrow> tn \<in> set nodenames | _ \<Rightarrow> False)"

text \<open>The result of \<^verbatim>\<open>executeUntilAnyTagNode\<close>: Go's
  \<^verbatim>\<open>(*tagNode, *[]string, error)\<close>, with the template and context left behind.\<close>

type_synonym ('h, 'e, 'v) block =
  "(('h, 'e) node option \<times> string list option \<times> error option)
     \<times> ('h, 'e, 'v) Template \<times> 'v Context"

partial_function (option) executeUntilLoop :: "('h, 'e, 'v) externals
    \<Rightarrow> ('h, 'e, 'v) Template \<Rightarrow> 'v Context \<Rightarrow> string list \<Rightarrow> string list
    \<Rightarrow> ('h, 'e, 'v) block outcome option" where
  "executeUntilLoop X tpl ctx nodenames renderedStrings =
     (if node_pos tpl < int (length (nodes tpl)) then
        (case index_at (nodes tpl) (node_pos tpl) of
           Panicked \<Rightarrow> Some Panicked
         | Returned node \<Rightarrow>
             if isEndNode node nodenames
             then Some (Returned ((Some node, Some renderedStrings, None), tpl, ctx))
             else
               (case execute X node tpl ctx of
                  ((_, Some e), tpl', ctx') \<Rightarrow>
                    Some (Returned ((None, None,
                            Some (BlockExecutionError (name tpl') (getLine node)
                                    (getCol node) (getContent node) e)), tpl', ctx'))
                | ((None, None), _, _) \<Rightarrow> Some Panicked
                | ((Some str, None), tpl', ctx') \<Rightarrow>
                    executeUntilLoop X (tpl'\<lparr>node_pos := node_pos tpl' + 1\<rparr>) ctx'
                      nodenames (renderedStrings @ [str])))
      else Some (Returned ((None, None, Some (NoEndNode nodenames)), tpl, ctx)))"

declare executeUntilLoop.simps [code]

text \<open>\<^verbatim>\<open>executeUntilAnyTagNode\<close>.  \<^verbatim>\<open>make([]string, 0, len(tpl.nodes)-tpl.node_pos)\<close>
  panics on a negative capacity.\<close>

definition executeUntilAnyTagNode :: "('h, 'e, 'v) externals \<Rightarrow> ('h, 'e, 'v) Template
    \<Rightarrow> 'v Context \<Rightarrow> string list \<Rightarrow> ('h, 'e, 'v) block outcome option" where
  "executeUntilAnyTagNode X tpl ctx nodenames =
     (if int (length (nodes tpl)) - node_pos tpl < 0 then Some Panicked
      else executeUntilLoop X (tpl\<lparr>node_pos := node_pos tpl + 1\<rparr>) ctx nodenames [])"

text \<open>The result of \<^verbatim>\<open>ignoreUntilAnyTagNode\<close>: Go's \<^verbatim>\<open>(*tagNode, error)\<close> and the
  template left behind.\<close>

type_synonym ('h, 'e, 'v) skipped =
  "(('h, 'e) node option \<times> error option) \<times> ('h, 'e, 'v) Template"

text \<open>The \<^verbatim>\<open>Ignore\<close> call on a tag that is no end node: made when the handler is
  not nil and has the hook.\<close>

definition notifyIgnore :: "('h, 'e, 'v) externals \<Rightarrow> ('h, 'e) node
    \<Rightarrow> ('h, 'e, 'v) Template \<Rightarrow> ('h, 'e, 'v) Template" where
  "notifyIgnore X node tpl =
     (case node of
        TagNode _ _ _ _ ta (Some h) \<Rightarrow>
          (case tagIgnore X h of None \<Rightarrow> tpl | Some hook \<Rightarrow> hook ta tpl)
      | _ \<Rightarrow> tpl)"

partial_function (option) ignoreUntilLoop :: "('h, 'e, 'v) externals
    \<Rightarrow> ('h, 'e, 'v) Template \<Rightarrow> string list \<Rightarrow> ('h, 'e, 'v) skipped outcome option" where
  "ignoreUntilLoop X tpl nodenames =
     (if node_pos tpl < int (length (nodes tpl)) then
        (case index_at (nodes tpl) (node_pos tpl) of
           Panicked \<Rightarrow> Some Panicked
         | Returned node \<Rightarrow>
             if isEndNode node nodenames
             then Some (Returned ((Some node, None), tpl))
             else
               (let tpl' = notifyIgnore X node tpl
                in ignoreUntilLoop X (tpl'\<lparr>node_pos := node_pos tpl' + 1\<rparr>) nodenames))
      else Some (Returned ((None, Some (NoEndNode nodenames)), tpl)))"

declare ignoreUntilLoop.simps [code]

definition ignoreUntilAnyTagNode :: "('h, 'e, 'v) externals \<Rightarrow> ('h, 'e, 'v) Template
    \<Rightarrow> string list \<Rightarrow> ('h, 'e, 'v) skipped outcome option" where
  "ignoreUntilAnyTagNode X tpl nodenames =
     ignoreUntilLoop X (tpl\<lparr>node_pos := node_pos tpl + 1\<rparr>) nodenames"

section \<open>Line and column of a source offset\<close>

text \<open>
  What the position tracker is to compute, said without the tracker: the line of the
  byte at offset \<open>k\<close> is one more than the number of newline bytes at the offsets up
  to \<open>k\<close>, and its column is the number of bytes behind the last of these newline
  bytes.  A newline byte itself is thus at column 0 of the line it opens; the first
  byte of a source that does not start with a newline is at line 1, column 1.
\<close>

definition lineOf :: "string \<Rightarrow> nat \<Rightarrow> int" where
  "lineOf s k = 1 + int (length (filter (\<lambda>c. c = CHR 0x0A) (take (Suc k) s)))"

definition colOf :: "string \<Rightarrow> nat \<Rightarrow> int" where
  "colOf s k = int (length (takeWhile (\<lambda>c. c \<noteq> CHR 0x0A) (rev (take (Suc k) s))))"

text \<open>The same for a scanner offset \<open>p\<close>, which may stand at the end of the input:
  the tracker then still shows the last byte.\<close>

definition lineAt :: "string \<Rightarrow> int \<Rightarrow> int" where
  "lineAt s p = lineOf s (nat (min p (int (length s) - 1)))"

definition colAt :: "string \<Rightarrow> int \<Rightarrow> int" where
  "colAt s p = colOf s (nat (min p (int (length s) - 1)))"

section \<open>Scanner states\<close>

text \<open>
  The scanner state that \<open>newTemplate\<close> builds and every lexer step keeps:
  \<^verbatim>\<open>rawLen\<close> is the length of the source, the capture window lies before the
  scanner offset, and the scanner offset lies within the source or at its end.
\<close>

definition wellFormed :: "('h, 'e, 'v) Template \<Rightarrow> bool" where
  "wellFormed tpl \<longleftrightarrow>
     rawLen tpl = int (length (raw tpl)) \<and> 0 \<le> start tpl \<and> 0 \<le> length_tpl tpl \<and>
     start tpl + length_tpl tpl \<le> pos tpl \<and> pos tpl \<le> rawLen tpl"

text \<open>The text between \<^verbatim>\<open>start\<close> and \<^verbatim>\<open>start+length\<close>: what the scanner has
  accumulated.\<close>

definition captured :: "('h, 'e, 'v) Template \<Rightarrow> string" where
  "captured tpl = take (nat (length_tpl tpl)) (drop (nat (start tpl)) (raw tpl))"

text \<open>Flushing the accumulated literal: a content node for it, if it is not empty,
  at the tracker's current line and column.\<close>

definition flushLiteral :: "('h, 'e, 'v) Template \<Rightarrow> ('h, 'e, 'v) Template" where
  "flushLiteral tpl =
     (if length_tpl tpl = 0 then tpl
      else tpl\<lparr>start := pos tpl, length_tpl := 0,
               nodes := nodes tpl @ [ContentNode (line tpl) (col tpl) (captured tpl)]\<rparr>)"

text \<open>The tracker shows the line and column of the scanner offset.\<close>

definition tracked :: "('h, 'e, 'v) Template \<Rightarrow> bool" where
  "tracked tpl \<longleftrightarrow>
     line tpl = lineAt (raw tpl) (pos tpl) \<and> col tpl = colAt (raw tpl) (pos tpl)"

text \<open>The invariant of the lexer loop, and what the loop leaves untouched.  In the
  comment state nothing is captured.\<close>

definition scanInv :: "('h, 'e, 'v) Template \<Rightarrow> bool" where
  "scanInv tpl \<longleftrightarrow>
     wellFormed tpl \<and> tracked tpl"

definition sameSource :: "('h, 'e, 'v) Template \<Rightarrow> ('h, 'e, 'v) Template \<Rightarrow> bool" where
  "sameSource tpl tpl' \<longleftrightarrow>
     raw tpl' = raw tpl \<and> name tpl' = name tpl \<and> parsed tpl' = parsed tpl"

definition stateInv :: "stateFunc \<Rightarrow> ('h, 'e, 'v) Template \<Rightarrow> bool" where
  "stateInv s tpl \<longleftrightarrow> scanInv tpl \<and> (s = ProcessComment \<longrightarrow> length_tpl tpl = 0)"

section \<open>The source as a chain of segments\<close>

text \<open>
  What the lexer is to make of a source, said without the lexer.  The source is cut
  into segments, each running from an offset \<open>segFrom\<close> up to, and not including, an
  offset \<open>segTo\<close>, where the next segment starts:
  \<^item> a literal is a non-empty run of bytes none of which is \<^verbatim>\<open>{\<close>; it ends at the end
    of the input or in front of one of the opening delimiters \<^verbatim>\<open>{#\<close>, \<^verbatim>\<open>{%\<close>, \<^verbatim>\<open>{{\<close>;
  \<^item> a comment, filter or tag region starts with its opening delimiter and ends with
    its closing delimiter (\<^verbatim>\<open>#}\<close>, \<^verbatim>\<open>}}\<close>, \<^verbatim>\<open>%}\<close>), which is the first one that starts
    behind the opening delimiter.
\<close>

datatype segment =
    LiteralSeg (segFrom: int) (segTo: int)
  | CommentSeg (segFrom: int) (segTo: int)
  | FilterSeg (segFrom: int) (segTo: int)
  | TagSeg (segFrom: int) (segTo: int)

text \<open>The opening delimiter \<^verbatim>\<open>{\<close>\<open>c\<close> starts at offset \<open>a\<close>; the closing delimiter
  \<open>c\<close>\<^verbatim>\<open>}\<close> starts at offset \<open>p\<close>.\<close>

definition openerAt :: "string \<Rightarrow> char \<Rightarrow> int \<Rightarrow> bool" where
  "openerAt s c a \<longleftrightarrow>
     0 \<le> a \<and> a + 1 < int (length s) \<and> s ! nat a = CHR ''{'' \<and> s ! nat (a + 1) = c"

definition closerAt :: "string \<Rightarrow> char \<Rightarrow> int \<Rightarrow> bool" where
  "closerAt s c p \<longleftrightarrow>
     0 \<le> p \<and> p + 1 < int (length s) \<and> s ! nat p = c \<and> s ! nat (p + 1) = CHR ''}''"

text \<open>A region from \<open>a\<close> to \<open>b\<close>: the opening delimiter at \<open>a\<close>, the closing delimiter
  at \<open>b - 2\<close>, and no closing delimiter that starts between the two.\<close>

definition regionOk :: "string \<Rightarrow> char \<Rightarrow> char \<Rightarrow> int \<Rightarrow> int \<Rightarrow> bool" where
  "regionOk s oc cc a b \<longleftrightarrow>
     openerAt s oc a \<and> a + 2 \<le> b - 2 \<and> closerAt s cc (b - 2) \<and>
     (\<forall>i\<in>{a + 2..<b - 2}. \<not> closerAt s cc i)"

fun segOk :: "string \<Rightarrow> segment \<Rightarrow> bool" where
  "segOk s (LiteralSeg a b) \<longleftrightarrow>
     0 \<le> a \<and> a < b \<and> b \<le> int (length s) \<and> (\<forall>i\<in>{a..<b}. s ! nat i \<noteq> CHR ''{'') \<and>
     (b = int (length s) \<or> openerAt s (CHR ''#'') b \<or> openerAt s (CHR ''%'') b \<or>
      openerAt s (CHR ''{'') b)"
| "segOk s (CommentSeg a b) \<longleftrightarrow> regionOk s (CHR ''#'') (CHR ''#'') a b"
| "segOk s (FilterSeg a b) \<longleftrightarrow> regionOk s (CHR ''{'') (CHR ''}'') a b"
| "segOk s (TagSeg a b) \<longleftrightarrow> regionOk s (CHR ''%'') (CHR ''%'') a b"

text \<open>\<open>segments s gs lo hi\<close>: the segments \<open>gs\<close> follow one another without a gap from
  offset \<open>lo\<close> to offset \<open>hi\<close> of the source \<open>s\<close>.\<close>

fun segments :: "string \<Rightarrow> segment list \<Rightarrow> int \<Rightarrow> int \<Rightarrow> bool" where
  "segments s [] lo hi \<longleftrightarrow> lo = hi"
| "segments s (g # gs) lo hi \<longleftrightarrow> segFrom g = lo \<and> segOk s g \<and> segments s gs (segTo g) hi"

text \<open>The bytes of the source from offset \<open>a\<close> up to offset \<open>b\<close>.\<close>

definition sourceText :: "string \<Rightarrow> int \<Rightarrow> int \<Rightarrow> string" where
  "sourceText s a b = take (nat (b - a)) (drop (nat a) s)"

text \<open>
  The node of a segment.  A literal gives a content node with the literal as its text;
  a filter or tag region gives a filter or tag node whose text is the trimmed text
  between the delimiters; a comment gives no node.  The line and column of the node are
  the tracked line and column of the offset \<open>emitOffset\<close>:
  \<^item> for a filter or tag region, the first byte of its closing delimiter;
  \<^item> for a literal, the end of the input if the literal ends there, and otherwise the
    offset two bytes behind the \<^verbatim>\<open>{\<close> in front of which the literal ends.
\<close>

fun emitOffset :: "string \<Rightarrow> segment \<Rightarrow> int" where
  "emitOffset s (LiteralSeg a b) = (if b = int (length s) then b else b + 2)"
| "emitOffset s (CommentSeg a b) = b - 2"
| "emitOffset s (FilterSeg a b) = b - 2"
| "emitOffset s (TagSeg a b) = b - 2"

fun segText :: "string \<Rightarrow> segment \<Rightarrow> string" where
  "segText s (LiteralSeg a b) = sourceText s a b"
| "segText s (CommentSeg a b) = TrimSpace (sourceText s (a + 2) (b - 2))"
| "segText s (FilterSeg a b) = TrimSpace (sourceText s (a + 2) (b - 2))"
| "segText s (TagSeg a b) = TrimSpace (sourceText s (a + 2) (b - 2))"

fun sameKind :: "segment \<Rightarrow> ('h, 'e) node \<Rightarrow> bool" where
  "sameKind (LiteralSeg _ _) (ContentNode _ _ _) = True"
| "sameKind (FilterSeg _ _) (FilterNode _ _ _ _) = True"
| "sameKind (TagSeg _ _) (TagNode _ _ _ _ _ _) = True"
| "sameKind _ _ = False"

definition nodeAt :: "string \<Rightarrow> segment \<Rightarrow> ('h, 'e) node \<Rightarrow> bool" where
  "nodeAt s g nd \<longleftrightarrow>
     sameKind g nd \<and> getContent nd = segText s g \<and>
     getLine nd = lineAt s (emitOffset s g) \<and> getCol nd = colAt s (emitOffset s g)"

fun rendersNode :: "segment \<Rightarrow> bool" where
  "rendersNode (CommentSeg _ _) = False"
| "rendersNode _ = True"

text \<open>\<open>nodesAt s gs N\<close>: the node list \<open>N\<close> holds, in order, one node for every segment
  of \<open>gs\<close> that is no comment, and each node is the node of its segment.\<close>

definition nodesAt :: "string \<Rightarrow> segment list \<Rightarrow> ('h, 'e) node list \<Rightarrow> bool" where
  "nodesAt s gs N \<longleftrightarrow> list_all2 (nodeAt s) (filter rendersNode gs) N"

text \<open>
  The scanner state between two lexer steps, by the state function that is to run
  next.  In the content state the segments reach up to the start of the capture window,
  which holds the literal read so far.  In a region the segments reach up to the
  opening delimiter, the capture window starts behind it, and no closing delimiter
  starts between the start of the window and the scanner offset.
\<close>

definition inRegion :: "char \<Rightarrow> char \<Rightarrow> ('h, 'e, 'v) Template \<Rightarrow> segment list \<Rightarrow> bool" where
  "inRegion oc cc tpl gs \<longleftrightarrow>
     segments (raw tpl) gs 0 (start tpl - 2) \<and> openerAt (raw tpl) oc (start tpl - 2) \<and>
     start tpl \<le> pos tpl \<and> (\<forall>i\<in>{start tpl..<pos tpl}. \<not> closerAt (raw tpl) cc i)"

fun scanned :: "stateFunc \<Rightarrow> ('h, 'e, 'v) Template \<Rightarrow> segment list \<Rightarrow> bool" where
  "scanned ProcessContent tpl gs \<longleftrightarrow>
     nodesAt (raw tpl) gs (nodes tpl) \<and> segments (raw tpl) gs 0 (start tpl) \<and>
     start tpl + length_tpl tpl = pos tpl \<and>
     (\<forall>i\<in>{start tpl..<pos tpl}. raw tpl ! nat i \<noteq> CHR ''{'')"
| "scanned ProcessComment tpl gs \<longleftrightarrow>
     nodesAt (raw tpl) gs (nodes tpl) \<and> inRegion (CHR ''#'') (CHR ''#'') tpl gs"
| "scanned ProcessFilter tpl gs \<longleftrightarrow>
     nodesAt (raw tpl) gs (nodes tpl) \<and> inRegion (CHR ''{'') (CHR ''}'') tpl gs \<and>
     start tpl + length_tpl tpl = pos tpl"
| "scanned ProcessTag tpl gs \<longleftrightarrow>
     nodesAt (raw tpl) gs (nodes tpl) \<and> inRegion (CHR ''%'') (CHR ''%'') tpl gs \<and>
     start tpl + length_tpl tpl = pos tpl"

text \<open>The same after a step that returns the next state function, or nil when the
  loop is to end.\<close>

definition scannedTo :: "stateFunc option \<Rightarrow> ('h, 'e, 'v) Template \<Rightarrow> segment list \<Rightarrow> bool" where
  "scannedTo s' tpl gs \<longleftrightarrow>
     (case s' of
        Some st \<Rightarrow> scanned st tpl gs
      | None \<Rightarrow> nodesAt (raw tpl) gs (nodes tpl) \<and>
                (\<exists>m\<in>{0..int (length (raw tpl))}. segments (raw tpl) gs 0 m))"

section \<open>Conditions on the tag handlers\<close>

text \<open>A handler keeps the node list: the list is fixed once parsing has succeeded.\<close>

definition keepsNodes :: "('h, 'e, 'v) externals \<Rightarrow> bool" where
  "keepsNodes X \<longleftrightarrow> (\<forall>h a s c. nodes (fst (snd (tagExecute X h a s c))) = nodes s)"

text \<open>A tag node with a handler: the only kind of node whose execution can change
  the template.\<close>

fun handled :: "('h, 'e) node \<Rightarrow> bool" where
  "handled (TagNode _ _ _ _ _ (Some _)) = True"
| "handled _ = False"

section \<open>The run-until and skip-until primitives as walks over the node list\<close>

text \<open>
  The cooperative protocol of the tag handlers: a control tag consumes its body by
  moving the shared cursor forward, and the node list is fixed once parsing has
  succeeded.  \<open>cursorProtocol X N\<close>: on a template with node list \<open>N\<close>, every
  handler's \<^verbatim>\<open>Execute\<close> keeps the node list and never moves the cursor backwards.
\<close>

definition cursorProtocol :: "('h, 'e, 'v) externals \<Rightarrow> ('h, 'e) node list \<Rightarrow> bool" where
  "cursorProtocol X N \<longleftrightarrow>
     (\<forall>h a s c. nodes s = N \<longrightarrow>
        nodes (fst (snd (tagExecute X h a s c))) = N \<and>
        node_pos s \<le> node_pos (fst (snd (tagExecute X h a s c))))"

text \<open>
  \<open>runUntilAnyOf\<close>, written from the words of the spec as a walk over the nodes that
  follow the calling tag: \<open>ns\<close> are the nodes from the cursor on.  It stops at the
  first tag node whose name is a stop name, without rendering it, and returns the
  output accumulated so far with that node; every other node is rendered, its output
  appended, and the walk goes on behind the nodes that the rendering itself consumed;
  a node error ends the walk with that error and no output; the end of the list is the
  error ``no end-node found''.
\<close>

fun runUntilAnyOf :: "('h, 'e, 'v) externals \<Rightarrow> string list \<Rightarrow> ('h, 'e) node list
    \<Rightarrow> ('h, 'e, 'v) Template \<Rightarrow> 'v Context \<Rightarrow> string list
    \<Rightarrow> ('h, 'e, 'v) block outcome" where
  "runUntilAnyOf X stopNames [] tpl ctx out =
     Returned ((None, None, Some (NoEndNode stopNames)), tpl, ctx)"
| "runUntilAnyOf X stopNames (nd # rest) tpl ctx out =
     (if isEndNode nd stopNames then Returned ((Some nd, Some out, None), tpl, ctx)
      else case execute X nd tpl ctx of
             ((_, Some e), tpl', ctx') \<Rightarrow>
               Returned ((None, None,
                 Some (BlockExecutionError (name tpl') (getLine nd) (getCol nd)
                         (getContent nd) e)), tpl', ctx')
           | ((None, None), _, _) \<Rightarrow> Panicked
           | ((Some str, None), tpl', ctx') \<Rightarrow>
               runUntilAnyOf X stopNames
                 (drop (nat (node_pos tpl' - node_pos tpl)) rest)
                 (tpl'\<lparr>node_pos := node_pos tpl' + 1\<rparr>) ctx' (out @ [str]))"

text \<open>\<open>hookProtocol hooks N\<close>: on a template with node list \<open>N\<close>, every skip
  notification keeps the node list and never moves the cursor backwards.\<close>

definition hookProtocol ::
  "('h \<Rightarrow> (string \<Rightarrow> ('h, 'e, 'v) Template \<Rightarrow> ('h, 'e, 'v) Template) option)
     \<Rightarrow> ('h, 'e) node list \<Rightarrow> bool" where
  "hookProtocol hooks N \<longleftrightarrow>
     (\<forall>h hook a s. hooks h = Some hook \<and> nodes s = N \<longrightarrow>
        nodes (hook a s) = N \<and> node_pos s \<le> node_pos (hook a s))"

text \<open>
  \<open>skipUntilAnyOf\<close>, written from the words of the spec: it depends on the skip
  notifications only, never on a render operation.  It stops at the first tag node
  whose name is a stop name and returns it; for every other tag node whose handler has
  a skip notification, that notification is called with the tag's argument text; the
  end of the list is the error ``no end-node found''.
\<close>

fun skipUntilAnyOf ::
  "('h \<Rightarrow> (string \<Rightarrow> ('h, 'e, 'v) Template \<Rightarrow> ('h, 'e, 'v) Template) option)
     \<Rightarrow> string list \<Rightarrow> ('h, 'e) node list \<Rightarrow> ('h, 'e, 'v) Template
     \<Rightarrow> ('h, 'e, 'v) skipped" where
  "skipUntilAnyOf hooks stopNames [] tpl = ((None, Some (NoEndNode stopNames)), tpl)"
| "skipUntilAnyOf hooks stopNames (nd # rest) tpl =
     (if isEndNode nd stopNames then ((Some nd, None), tpl)
      else let tpl' = (case nd of
                         TagNode _ _ _ _ ta (Some h) \<Rightarrow>
                           (case hooks h of None \<Rightarrow> tpl | Some hook \<Rightarrow> hook ta tpl)
                       | _ \<Rightarrow> tpl)
           in skipUntilAnyOf hooks stopNames
                (drop (nat (node_pos tpl' - node_pos tpl)) rest)
                (tpl'\<lparr>node_pos := node_pos tpl' + 1\<rparr>))"


section \<open>A concrete instance\<close>

text \<open>
  A small instance of the collaborators, to run the model on concrete templates: the
  registry knows the control tag \<open>if\<close> and the leaf tag \<open>now\<close>, and the markers
  \<open>else\<close> and \<open>endif\<close> with a nil handler; the expression compiler rejects the empty
  text and evaluates an expression to its own text in angle brackets; a handler renders
  its argument text in square brackets and leaves the template alone.
\<close>

definition demoExternals :: "(nat, string, string) externals" where
  "demoExternals =
     \<lparr>Tags = [''if'' \<mapsto> Some 0, ''else'' \<mapsto> None, ''endif'' \<mapsto> None, ''now'' \<mapsto> Some 1],
      newExpr = (\<lambda>s. if s = [] then Inl ''Empty expression'' else Inr s),
      addFilter = (\<lambda>ex f. ex @ ''|'' @ f),
      evalString = (\<lambda>ex ctx. ((Some (''<'' @ ex @ ''>''), None), ctx)),
      tagExecute = (\<lambda>h a tpl ctx. ((Some (''['' @ a @ '']''), None), tpl, ctx)),
      tagIgnore = (\<lambda>h. None)\<rparr>"

text \<open>The template that \<open>newTemplate ''demo'' src None\<close> builds from a non-empty
  source.\<close>

definition demoTemplate :: "string \<Rightarrow> (nat, string, string) Template" where
  "demoTemplate src =
     \<lparr>name = ''demo'', parsed = False, raw = src, rawLen = int (length src),
      pos = 0, start = 0, length_tpl = 0, err = [],
      line = 1, col = 0, autosafe = True, nodes = [], node_pos = 0,
      locator = None, internal_context = Some Map.empty\<rparr>"

text \<open>A second instance, in which every render operation fails: evaluating an
  expression and executing a tag both return an error.  The handler of \<open>if\<close> has a skip
  notification, which records the argument text it is called with in the transient
  error field of the template.\<close>

definition failingExternals :: "(nat, string, string) externals" where
  "failingExternals =
     demoExternals
       \<lparr>evalString := (\<lambda>ex ctx. ((None, Some (Message ''evaluation failed'')), ctx)),
        tagExecute := (\<lambda>h a tpl ctx. ((None, Some (Message ''execution failed'')), tpl, ctx)),
        tagIgnore := (\<lambda>h. if h = 0 then Some (\<lambda>a tpl. tpl\<lparr>err := a\<rparr>) else None)\<rparr>"


section \<open>The lexer loop keeps its invariant\<close>

text \<open>The tracked position moves with the scanner, one byte at a time.\<close>

lemma lineOf_Suc:
  "Suc k < length s \<Longrightarrow>
     lineOf s (Suc k) = lineOf s k + (if s ! Suc k = CHR 0x0A then 1 else 0)"
  by (simp add: lineOf_def take_Suc_conv_app_nth[of "Suc k"])

lemma colOf_Suc:
  "Suc k < length s \<Longrightarrow>
     colOf s (Suc k) = (if s ! Suc k = CHR 0x0A then 0 else colOf s k + 1)"
  by (simp add: colOf_def take_Suc_conv_app_nth[of "Suc k"])

lemma lineAt_step:
  assumes "0 \<le> p" "p + 1 < int (length s)"
  shows "lineAt s (p + 1) = lineAt s p + (if s ! nat (p + 1) = CHR 0x0A then 1 else 0)"
proof -
  from assms have "nat (p + 1) = Suc (nat p)" "Suc (nat p) < length s" by auto
  with assms lineOf_Suc[of "nat p" s] show ?thesis
    by (simp add: lineAt_def min_def)
qed

lemma colAt_step:
  assumes "0 \<le> p" "p + 1 < int (length s)"
  shows "colAt s (p + 1) = (if s ! nat (p + 1) = CHR 0x0A then 0 else colAt s p + 1)"
proof -
  from assms have "nat (p + 1) = Suc (nat p)" "Suc (nat p) < length s" by auto
  with assms colOf_Suc[of "nat p" s] show ?thesis
    by (simp add: colAt_def min_def)
qed

lemma lineAt_end: "int (length s) \<le> p \<Longrightarrow> lineAt s p = lineAt s (int (length s) - 1)"
  by (simp add: lineAt_def min_def)

lemma colAt_end: "int (length s) \<le> p \<Longrightarrow> colAt s p = colAt s (int (length s) - 1)"
  by (simp add: colAt_def min_def)

lemma fastForward_tracked:
  assumes "rawLen tpl = int (length (raw tpl))" "0 \<le> pos tpl"
    and "pos tpl + int n \<le> rawLen tpl" "pos tpl < rawLen tpl" "tracked tpl"
  shows "fastForward tpl n =
           Returned (n = 0 \<or> pos tpl + int n < rawLen tpl,
                     tpl\<lparr>pos := pos tpl + int n,
                         line := lineAt (raw tpl) (pos tpl + int n),
                         col := colAt (raw tpl) (pos tpl + int n)\<rparr>)"
  using assms
proof (induction n arbitrary: tpl)
  case 0
  then show ?case by (simp add: fastForward.simps tracked_def)
next
  case (Suc n)
  let ?t1 = "tpl\<lparr>pos := pos tpl + 1\<rparr>"
  show ?case
  proof (cases "pos tpl + 1 < rawLen tpl")
    case False
    with Suc.prems have n: "n = 0" and e: "pos tpl + 1 = int (length (raw tpl))" by auto
    from e have "int (length (raw tpl)) - 1 = pos tpl" by simp
    then have "lineAt (raw tpl) (pos tpl + 1) = lineAt (raw tpl) (pos tpl)"
      "colAt (raw tpl) (pos tpl + 1) = colAt (raw tpl) (pos tpl)"
      by (simp_all add: lineAt_def colAt_def min_def)
    with Suc.prems have l: "lineAt (raw tpl) (pos tpl + 1) = line tpl"
      "colAt (raw tpl) (pos tpl + 1) = col tpl"
      by (simp_all add: tracked_def)
    from False Suc.prems have "updatePosition ?t1 = Returned (False, ?t1)"
      by (simp add: updatePosition_def hasReachedEnd_def)
    with False l show ?thesis unfolding n
      by (simp add: fastForward.simps)
  next
    case True
    define l1 where "l1 = lineAt (raw tpl) (pos tpl + 1)"
    define c1 where "c1 = colAt (raw tpl) (pos tpl + 1)"
    define t2 where "t2 = tpl\<lparr>pos := pos tpl + 1, line := l1, col := c1\<rparr>"
    from True Suc.prems have u: "updatePosition ?t1 = Returned (True, t2)"
      using lineAt_step[of "pos tpl" "raw tpl"] colAt_step[of "pos tpl" "raw tpl"]
      by (simp add: updatePosition_def hasReachedEnd_def index_at_def tracked_def
          t2_def l1_def c1_def)
    have tr: "tracked t2"
      by (simp add: tracked_def t2_def l1_def c1_def)
    from True Suc.prems have "fastForward t2 n =
           Returned (n = 0 \<or> pos t2 + int n < rawLen t2,
                     t2\<lparr>pos := pos t2 + int n,
                         line := lineAt (raw t2) (pos t2 + int n),
                         col := colAt (raw t2) (pos t2 + int n)\<rparr>)"
      by (intro Suc.IH tr) (auto simp: t2_def)
    moreover have "pos t2 + int n = pos tpl + int (Suc n)" "raw t2 = raw tpl"
      "rawLen t2 = rawLen tpl"
      by (simp_all add: t2_def)
    moreover from True have "(n = 0 \<or> pos tpl + int (Suc n) < rawLen tpl)
        = (pos tpl + int (Suc n) < rawLen tpl)"
      by auto
    ultimately have "fastForward t2 n =
           Returned (pos tpl + int (Suc n) < rawLen tpl,
                     t2\<lparr>pos := pos tpl + int (Suc n),
                         line := lineAt (raw tpl) (pos tpl + int (Suc n)),
                         col := colAt (raw tpl) (pos tpl + int (Suc n))\<rparr>)"
      by simp
    with u show ?thesis
      by (simp add: fastForward.simps t2_def)
  qed
qed


lemma getChar_wf:
  "wellFormed tpl \<Longrightarrow> 0 \<le> rel \<Longrightarrow>
     getChar tpl rel =
       Returned (if pos tpl + rel < rawLen tpl then Some (raw tpl ! nat (pos tpl + rel))
                 else None)"
  by (auto simp: wellFormed_def getChar_def hasReachedEnd_def index_at_def)

lemma slice_wf:
  "wellFormed tpl \<Longrightarrow>
     slice (raw tpl) (start tpl) (start tpl + length_tpl tpl) =
       Returned (take (nat (length_tpl tpl)) (drop (nat (start tpl)) (raw tpl)))"
  by (auto simp: wellFormed_def slice_def)

lemma fastForward_inv:
  assumes "wellFormed tpl" "tracked tpl" "pos tpl + int n \<le> rawLen tpl" "pos tpl < rawLen tpl"
  shows "fastForward tpl n =
           Returned (n = 0 \<or> pos tpl + int n < rawLen tpl,
                     tpl\<lparr>pos := pos tpl + int n,
                         line := lineAt (raw tpl) (pos tpl + int n),
                         col := colAt (raw tpl) (pos tpl + int n)\<rparr>)"
  using assms by (intro fastForward_tracked) (auto simp: wellFormed_def)

lemma scanInv_start:
  "scanInv tpl \<Longrightarrow> scanInv (tpl\<lparr>start := pos tpl\<rparr>) \<or> length_tpl tpl \<noteq> 0"
  by (auto simp: scanInv_def wellFormed_def tracked_def)

lemma addContentNode_inv:
  fixes tpl :: "('h, 'e, 'v) Template"
  assumes "scanInv tpl"
  shows "\<exists>tpl'. addContentNode tpl = Returned tpl' \<and> scanInv tpl' \<and> sameSource tpl tpl' \<and>
           length_tpl tpl' = 0 \<and> err tpl' = err tpl"
proof (cases "length_tpl tpl = 0")
  case True
  with assms show ?thesis
    by (simp add: addContentNode_def sameSource_def)
next
  case False
  let ?lit = "take (nat (length_tpl tpl)) (drop (nat (start tpl)) (raw tpl))"
  let ?t = "tpl\<lparr>start := pos tpl, length_tpl := 0,
                nodes := nodes tpl @ [ContentNode (line tpl) (col tpl) ?lit]\<rparr>"
  from assms False have "addContentNode tpl = Returned ?t"
    by (simp add: addContentNode_def slice_wf scanInv_def)
  moreover from assms have "scanInv ?t"
    by (auto simp: scanInv_def wellFormed_def tracked_def)
  moreover have "sameSource tpl ?t" by (simp add: sameSource_def)
  ultimately show ?thesis by simp
qed

lemma processContent_inv:
  fixes tpl :: "('h, 'e, 'v) Template"
  assumes "scanInv tpl"
  shows "\<exists>s' tpl'. processContent tpl = Returned (s', tpl') \<and> scanInv tpl' \<and> sameSource tpl tpl'
           \<and> (s' = Some ProcessComment \<longrightarrow> length_tpl tpl' = 0)"
proof -
  from assms have wf: "wellFormed tpl" and tr: "tracked tpl"
    by (simp_all add: scanInv_def)
  from wf have b: "0 \<le> pos tpl" "pos tpl \<le> int (length (raw tpl))" "rawLen tpl = int (length (raw tpl))"
    by (auto simp: wellFormed_def)
  show ?thesis
  proof (cases "pos tpl < rawLen tpl")
    case False
    from addContentNode_inv[OF assms] False wf show ?thesis
      by (auto simp: processContent_def getChar_wf)
  next
    case True
    note lt = this
    show ?thesis
    proof (cases "raw tpl ! nat (pos tpl) = CHR ''{''")
      case False
      let ?t = "tpl\<lparr>length_tpl := length_tpl tpl + 1\<rparr>"
      from wf lt have "rawLen ?t = int (length (raw ?t))" "0 \<le> pos ?t"
        "pos ?t + int 1 \<le> rawLen ?t" "pos ?t < rawLen ?t" "tracked ?t"
        using tr by (auto simp: wellFormed_def tracked_def)
      from fastForward_tracked[OF this] False lt wf show ?thesis
        by (auto simp: processContent_def getChar_wf scanInv_def
          sameSource_def wellFormed_def tracked_def)
    next
      case True
      note brace = this
      show ?thesis
      proof (cases "pos tpl + 1 < rawLen tpl")
        case False
        with brace lt wf tr show ?thesis
          by (auto simp: processContent_def getChar_wf scanInv_def
            sameSource_def wellFormed_def tracked_def)
      next
        case True
        define t2 where "t2 = tpl\<lparr>pos := pos tpl + 2,
                         line := lineAt (raw tpl) (pos tpl + 2),
                         col := colAt (raw tpl) (pos tpl + 2)\<rparr>"
        from wf tr True lt have ff: "fastForward tpl 2 = Returned (pos tpl + 2 < rawLen tpl, t2)"
          using fastForward_inv[of tpl 2] by (simp add: t2_def)
        from wf True have inv2: "scanInv t2"
          by (auto simp: scanInv_def wellFormed_def tracked_def t2_def)
        have same2: "sameSource tpl t2" by (simp add: sameSource_def t2_def)
        from addContentNode_inv[OF inv2] obtain t3 where
          t3: "addContentNode t2 = Returned t3" "scanInv t3" "sameSource t2 t3" "length_tpl t3 = 0"
          by blast
        from t3 scanInv_start[of t3] have "scanInv (t3\<lparr>start := pos t3\<rparr>)" by simp
        moreover from t3 same2 have "sameSource tpl (t3\<lparr>start := pos t3\<rparr>)"
          by (simp add: sameSource_def)
        ultimately have "\<forall>st. \<exists>s' tpl'. openRegion st t2 = Returned (s', tpl') \<and> scanInv tpl'
            \<and> sameSource tpl tpl' \<and> length_tpl tpl' = 0"
          using t3 by (simp add: openRegion_def)
        moreover from inv2 same2 have "\<forall>m. scanInv (t2\<lparr>err := m\<rparr>) \<and> sameSource tpl (t2\<lparr>err := m\<rparr>)"
          by (auto simp: scanInv_def sameSource_def wellFormed_def tracked_def)
        ultimately show ?thesis
          using brace lt True wf ff
          by (simp add: processContent_def getChar_wf) blast
      qed
    qed
  qed
qed


lemma scanInv_err: "scanInv (tpl\<lparr>err := m\<rparr>) = scanInv tpl"
  by (simp add: scanInv_def wellFormed_def tracked_def)

lemma sameSource_err: "sameSource tpl (tpl'\<lparr>err := m\<rparr>) = sameSource tpl tpl'"
  by (simp add: sameSource_def)

lemma sameSource_refl: "sameSource tpl tpl"
  by (simp add: sameSource_def)

lemma sameSource_trans: "sameSource a b \<Longrightarrow> sameSource b c \<Longrightarrow> sameSource a c"
  by (simp add: sameSource_def)

lemma skip_inv:
  assumes "scanInv tpl" "pos tpl < rawLen tpl"
  shows "\<exists>b tpl'. fastForward tpl 1 = Returned (b, tpl') \<and> scanInv tpl' \<and> sameSource tpl tpl'
           \<and> length_tpl tpl' = length_tpl tpl"
proof -
  from assms have "fastForward tpl 1 =
      Returned (1 = (0::nat) \<or> pos tpl + int 1 < rawLen tpl,
                tpl\<lparr>pos := pos tpl + int 1, line := lineAt (raw tpl) (pos tpl + int 1),
                    col := colAt (raw tpl) (pos tpl + int 1)\<rparr>)"
    by (intro fastForward_inv) (auto simp: scanInv_def)
  with assms show ?thesis
    by (auto simp: scanInv_def wellFormed_def tracked_def sameSource_def)
qed

lemma capture_inv:
  assumes "scanInv tpl" "pos tpl < rawLen tpl"
  shows "\<exists>b tpl'. fastForward (tpl\<lparr>length_tpl := length_tpl tpl + 1\<rparr>) 1 = Returned (b, tpl')
           \<and> scanInv tpl' \<and> sameSource tpl tpl'"
proof -
  let ?t = "tpl\<lparr>length_tpl := length_tpl tpl + 1\<rparr>"
  from assms have "rawLen ?t = int (length (raw ?t))" "0 \<le> pos ?t"
    "pos ?t + int 1 \<le> rawLen ?t" "pos ?t < rawLen ?t" "tracked ?t"
    by (auto simp: scanInv_def wellFormed_def tracked_def)
  from fastForward_tracked[OF this] assms show ?thesis
    by (auto simp: scanInv_def wellFormed_def tracked_def sameSource_def)
qed

lemma close_inv:
  assumes "scanInv tpl" "pos tpl + 1 < rawLen tpl" "length_tpl tpl = 0"
  shows "\<exists>b tpl'. fastForward tpl 2 = Returned (b, tpl') \<and> scanInv (tpl'\<lparr>start := pos tpl'\<rparr>)
           \<and> sameSource tpl tpl'"
proof -
  from assms have "fastForward tpl 2 =
      Returned (2 = (0::nat) \<or> pos tpl + int 2 < rawLen tpl,
                tpl\<lparr>pos := pos tpl + int 2, line := lineAt (raw tpl) (pos tpl + int 2),
                    col := colAt (raw tpl) (pos tpl + int 2)\<rparr>)"
    by (intro fastForward_inv) (auto simp: scanInv_def)
  with assms show ?thesis
    by (auto simp: scanInv_def wellFormed_def tracked_def sameSource_def)
qed

lemma processComment_inv:
  assumes "scanInv tpl" "length_tpl tpl = 0"
  shows "\<exists>s' tpl'. processComment tpl = Returned (s', tpl') \<and> scanInv tpl' \<and> sameSource tpl tpl'
           \<and> (s' = Some ProcessComment \<longrightarrow> length_tpl tpl' = 0)"
proof -
  from assms have wf: "wellFormed tpl" by (simp add: scanInv_def)
  show ?thesis
  proof (cases "pos tpl < rawLen tpl")
    case False
    with wf assms show ?thesis
      by (simp add: processComment_def Let_def getChar_wf scanInv_err sameSource_err
          sameSource_refl)
  next
    case True
    from skip_inv[OF assms(1) True] assms(2) obtain b t1 where
      t1: "fastForward tpl 1 = Returned (b, t1)" "scanInv t1" "sameSource tpl t1"
        "length_tpl t1 = 0"
      by auto
    show ?thesis
    proof (cases "raw tpl ! nat (pos tpl) = CHR ''#'' \<and> pos tpl + 1 < rawLen tpl
                  \<and> raw tpl ! nat (pos tpl + 1) = CHR ''}''")
      case False
      with True wf assms t1 show ?thesis
        by (auto simp: processComment_def Let_def getChar_wf scanInv_err sameSource_err
            sameSource_refl)
    next
      case c: True
      from close_inv[OF assms(1) _ assms(2)] c obtain b2 t2 where
        "fastForward tpl 2 = Returned (b2, t2)" "scanInv (t2\<lparr>start := pos t2\<rparr>)"
        "sameSource tpl t2"
        by auto
      with True c wf show ?thesis
        by (simp add: processComment_def Let_def getChar_wf sameSource_def)
    qed
  qed
qed


lemma addFilterNode_inv:
  fixes tpl :: "('h, 'e, 'v) Template"
  assumes "scanInv tpl"
  shows "\<exists>r tpl'. addFilterNode X tpl = Returned (r, tpl') \<and> scanInv tpl' \<and> sameSource tpl tpl'
           \<and> pos tpl' = pos tpl \<and> rawLen tpl' = rawLen tpl \<and> (r = None \<longrightarrow> length_tpl tpl' = 0)"
proof -
  have "scanInv (tpl\<lparr>start := pos tpl, length_tpl := 0,
                     nodes := nodes tpl @ [FilterNode (line tpl) (col tpl) c ex]\<rparr>)" for c ex
    using assms
    by (auto simp: scanInv_def wellFormed_def tracked_def)
  with assms show ?thesis
    by (auto simp: addFilterNode_def Let_def slice_wf scanInv_def sameSource_def
        split: sum.splits)
qed

lemma addTagNode_inv:
  fixes tpl :: "('h, 'e, 'v) Template"
  assumes "scanInv tpl"
  shows "\<exists>r tpl'. addTagNode X tpl = Returned (r, tpl') \<and> scanInv tpl' \<and> sameSource tpl tpl'
           \<and> pos tpl' = pos tpl \<and> rawLen tpl' = rawLen tpl \<and> (r = None \<longrightarrow> length_tpl tpl' = 0)"
proof -
  have "scanInv (tpl\<lparr>start := pos tpl, length_tpl := 0,
                     nodes := nodes tpl @ [TagNode (line tpl) (col tpl) c tn ta th]\<rparr>)"
    for c tn ta th
    using assms
    by (auto simp: scanInv_def wellFormed_def tracked_def)
  with assms show ?thesis
    by (auto simp: addTagNode_def Let_def slice_wf scanInv_def sameSource_def
        split: list.splits option.splits)
qed

lemma processFilter_inv:
  fixes tpl :: "('h, 'e, 'v) Template"
  assumes "scanInv tpl"
  shows "\<exists>s' tpl'. processFilter X tpl = Returned (s', tpl') \<and> scanInv tpl' \<and> sameSource tpl tpl'
           \<and> s' \<noteq> Some ProcessComment"
proof -
  from assms have wf: "wellFormed tpl" and tr: "tracked tpl" by (simp_all add: scanInv_def)
  show ?thesis
  proof (cases "pos tpl < rawLen tpl")
    case False
    with wf assms show ?thesis
      by (simp add: processFilter_def Let_def getChar_wf scanInv_err sameSource_err
          sameSource_refl)
  next
    case True
    from capture_inv[OF assms True] obtain b t1 where
      t1: "fastForward (tpl\<lparr>length_tpl := length_tpl tpl + 1\<rparr>) 1 = Returned (b, t1)"
        "scanInv t1" "sameSource tpl t1"
      by auto
    show ?thesis
    proof (cases "raw tpl ! nat (pos tpl) = CHR ''}'' \<and> pos tpl + 1 < rawLen tpl
                  \<and> raw tpl ! nat (pos tpl + 1) = CHR ''}''")
      case False
      with True wf assms t1 show ?thesis
        by (auto simp: processFilter_def Let_def getChar_wf scanInv_err sameSource_err
            sameSource_refl)
    next
      case c: True
      from addFilterNode_inv[OF assms, of X] obtain r t2 where
        t2: "addFilterNode X tpl = Returned (r, t2)" "scanInv t2" "sameSource tpl t2"
          "pos t2 = pos tpl" "rawLen t2 = rawLen tpl" "r = None \<longrightarrow> length_tpl t2 = 0"
        by blast
      show ?thesis
      proof (cases r)
        case (Some m)
        with t2 True c wf show ?thesis
          by (simp add: processFilter_def Let_def getChar_wf scanInv_err sameSource_err)
      next
        case None
        with t2 c have "pos t2 + 1 < rawLen t2" "length_tpl t2 = 0" by simp_all
        from close_inv[OF t2(2) this] obtain b3 t3 where
          "fastForward t2 2 = Returned (b3, t3)" "scanInv (t3\<lparr>start := pos t3\<rparr>)"
          "sameSource t2 t3"
          by auto
        with None t2 True c wf show ?thesis
          by (simp add: processFilter_def Let_def getChar_wf sameSource_def)
      qed
    qed
  qed
qed

lemma processTag_inv:
  fixes tpl :: "('h, 'e, 'v) Template"
  assumes "scanInv tpl"
  shows "\<exists>s' tpl'. processTag X tpl = Returned (s', tpl') \<and> scanInv tpl' \<and> sameSource tpl tpl'
           \<and> s' \<noteq> Some ProcessComment"
proof -
  from assms have wf: "wellFormed tpl" and tr: "tracked tpl" by (simp_all add: scanInv_def)
  show ?thesis
  proof (cases "pos tpl < rawLen tpl")
    case False
    with wf assms show ?thesis
      by (simp add: processTag_def Let_def getChar_wf scanInv_err sameSource_err
          sameSource_refl)
  next
    case True
    from capture_inv[OF assms True] obtain b t1 where
      t1: "fastForward (tpl\<lparr>length_tpl := length_tpl tpl + 1\<rparr>) 1 = Returned (b, t1)"
        "scanInv t1" "sameSource tpl t1"
      by auto
    show ?thesis
    proof (cases "raw tpl ! nat (pos tpl) = CHR ''%'' \<and> pos tpl + 1 < rawLen tpl
                  \<and> raw tpl ! nat (pos tpl + 1) = CHR ''}''")
      case False
      with True wf assms t1 show ?thesis
        by (auto simp: processTag_def Let_def getChar_wf scanInv_err sameSource_err
            sameSource_refl)
    next
      case c: True
      from addTagNode_inv[OF assms, of X] obtain r t2 where
        t2: "addTagNode X tpl = Returned (r, t2)" "scanInv t2" "sameSource tpl t2"
          "pos t2 = pos tpl" "rawLen t2 = rawLen tpl" "r = None \<longrightarrow> length_tpl t2 = 0"
        by blast
      show ?thesis
      proof (cases r)
        case (Some m)
        with t2 True c wf show ?thesis
          by (simp add: processTag_def Let_def getChar_wf scanInv_err sameSource_err)
      next
        case None
        with t2 c have "pos t2 + 1 < rawLen t2" "length_tpl t2 = 0" by simp_all
        from close_inv[OF t2(2) this] obtain b3 t3 where
          "fastForward t2 2 = Returned (b3, t3)" "scanInv (t3\<lparr>start := pos t3\<rparr>)"
          "sameSource t2 t3"
          by auto
        with None t2 True c wf show ?thesis
          by (simp add: processTag_def Let_def getChar_wf sameSource_def)
      qed
    qed
  qed
qed

lemma callState_inv:
  fixes tpl :: "('h, 'e, 'v) Template"
  assumes "stateInv s tpl"
  shows "\<exists>s' tpl'. callState X s tpl = Returned (s', tpl') \<and> scanInv tpl' \<and> sameSource tpl tpl'
           \<and> (\<forall>st. s' = Some st \<longrightarrow> stateInv st tpl')"
proof (cases s)
  case ProcessContent
  with assms processContent_inv[of tpl] show ?thesis
    by (auto simp: stateInv_def)
next
  case ProcessComment
  with assms processComment_inv[of tpl] show ?thesis
    by (auto simp: stateInv_def)
next
  case ProcessFilter
  with assms processFilter_inv[of tpl X] show ?thesis
    by (auto simp: stateInv_def)
next
  case ProcessTag
  with assms processTag_inv[of tpl X] show ?thesis
    by (auto simp: stateInv_def)
qed

lemma runStates_inv:
  fixes tpl :: "('h, 'e, 'v) Template"
  shows "stateInv s tpl \<Longrightarrow>
     \<exists>tpl'. runStates X s tpl = Returned tpl' \<and> scanInv tpl' \<and> sameSource tpl tpl'"
proof (induction X s tpl rule: runStates.induct)
  case (1 X s tpl)
  from callState_inv[OF "1.prems", of X] obtain s' t1 where
    c: "callState X s tpl = Returned (s', t1)" "scanInv t1" "sameSource tpl t1"
      "\<forall>st. s' = Some st \<longrightarrow> stateInv st t1"
    by blast
  show ?case
  proof (cases s')
    case None
    with c show ?thesis by (subst runStates.simps) simp
  next
    case (Some st)
    with c have "stateInv st t1" by simp
    from "1.IH"[OF c(1)[unfolded Some] refl refl this] obtain t2 where
      "runStates X st t1 = Returned t2" "scanInv t2" "sameSource t1 t2"
      by blast
    with c Some show ?thesis
      by (subst runStates.simps) (auto intro: sameSource_trans)
  qed
qed

section \<open>The lexer loop emits the nodes of the segments\<close>

lemma addContentNode_wf:
  "wellFormed tpl \<Longrightarrow> addContentNode tpl = Returned (flushLiteral tpl)"
  by (simp add: addContentNode_def flushLiteral_def captured_def slice_wf)

lemma scannedTo_Some: "scannedTo (Some st) tpl gs = scanned st tpl gs"
  by (simp add: scannedTo_def)

lemma segments_append:
  "segments s (gs @ [g]) lo hi \<longleftrightarrow> segments s gs lo (segFrom g) \<and> segOk s g \<and> segTo g = hi"
  by (induction gs arbitrary: lo) auto

lemma nodesAt_comment:
  "nodesAt s gs N \<Longrightarrow> nodesAt s (gs @ [CommentSeg a b]) N"
  by (simp add: nodesAt_def)

lemma nodesAt_node:
  "nodesAt s gs N \<Longrightarrow> rendersNode g \<Longrightarrow> nodeAt s g nd \<Longrightarrow> nodesAt s (gs @ [g]) (N @ [nd])"
  by (simp add: nodesAt_def list_all2_appendI)

lemma flushLiteral_frame:
  "raw (flushLiteral t) = raw t" "pos (flushLiteral t) = pos t" "length_tpl (flushLiteral t) = 0"
  "rawLen (flushLiteral t) = rawLen t"
  by (simp_all add: flushLiteral_def)

text \<open>Flushing the literal appends its segment.\<close>

lemma flushLiteral_scanned:
  fixes t :: "('h, 'e, 'v) Template"
  assumes "nodesAt (raw t) gs (nodes t)" "segments (raw t) gs 0 (start t)"
    and "0 \<le> start t" "0 \<le> length_tpl t" "e = start t + length_tpl t"
    and "e \<le> int (length (raw t))"
    and "\<forall>i\<in>{start t..<e}. raw t ! nat i \<noteq> CHR ''{''"
    and "e = int (length (raw t)) \<or> openerAt (raw t) (CHR ''#'') e \<or>
         openerAt (raw t) (CHR ''%'') e \<or> openerAt (raw t) (CHR ''{'') e"
    and "line t = lineAt (raw t) (if e = int (length (raw t)) then e else e + 2)"
    and "col t = colAt (raw t) (if e = int (length (raw t)) then e else e + 2)"
  shows "\<exists>gs'. nodesAt (raw t) gs' (nodes (flushLiteral t)) \<and> segments (raw t) gs' 0 e"
proof (cases "length_tpl t = 0")
  case True
  with assms show ?thesis
    by (intro exI[of _ gs]) (simp add: flushLiteral_def)
next
  case False
  let ?g = "LiteralSeg (start t) e"
  let ?nd = "ContentNode (line t) (col t) (captured t) :: ('h, 'e) node"
  from assms False have ok: "segOk (raw t) ?g" by simp
  from assms have "nodeAt (raw t) ?g ?nd"
    by (simp add: nodeAt_def captured_def sourceText_def)
  with assms(1) have "nodesAt (raw t) (gs @ [?g]) (nodes t @ [?nd])"
    by (intro nodesAt_node) simp_all
  with False ok assms(2) show ?thesis
    by (intro exI[of _ "gs @ [?g]"]) (simp add: flushLiteral_def segments_append)
qed

lemma processContent_scanned:
  fixes tpl :: "('h, 'e, 'v) Template"
  assumes inv: "scanInv tpl" and lay: "scanned ProcessContent tpl gs"
    and step: "processContent tpl = Returned (s', tpl')"
  shows "\<exists>gs'. scannedTo s' tpl' gs'"
proof -
  from inv have wf: "wellFormed tpl" and tr: "tracked tpl"
    by (simp_all add: scanInv_def)
  from wf have b: "0 \<le> pos tpl" "pos tpl \<le> int (length (raw tpl))"
    "rawLen tpl = int (length (raw tpl))" "0 \<le> start tpl" "0 \<le> length_tpl tpl"
    by (auto simp: wellFormed_def)
  from lay have nd: "nodesAt (raw tpl) gs (nodes tpl)"
    and sg: "segments (raw tpl) gs 0 (start tpl)"
    and sl: "start tpl + length_tpl tpl = pos tpl"
    and nb: "\<forall>i\<in>{start tpl..<pos tpl}. raw tpl ! nat i \<noteq> CHR ''{''"
    by simp_all
  have fin: "scannedTo None (tpl\<lparr>err := m\<rparr>) gs" for m
    using nd sg b sl by (auto simp: scannedTo_def intro!: bexI[of _ "start tpl"])
  show ?thesis
  proof (cases "pos tpl < rawLen tpl")
    case False
    with b have e: "pos tpl = int (length (raw tpl))" by simp
    from False wf step have r: "s' = None" "tpl' = flushLiteral tpl"
      by (auto simp: processContent_def getChar_wf addContentNode_wf)
    from tr e have "line tpl = lineAt (raw tpl) (pos tpl)" "col tpl = colAt (raw tpl) (pos tpl)"
      by (simp_all add: tracked_def)
    with nd sg b sl nb e
    have "\<exists>gs'. nodesAt (raw tpl) gs' (nodes (flushLiteral tpl)) \<and>
                segments (raw tpl) gs' 0 (pos tpl)"
      by (intro flushLiteral_scanned) simp_all
    then obtain gs' where "nodesAt (raw tpl) gs' (nodes (flushLiteral tpl))"
      "segments (raw tpl) gs' 0 (pos tpl)"
      by blast
    with r b show ?thesis
      by (intro exI[of _ gs'])
         (auto simp: scannedTo_def flushLiteral_frame intro!: bexI[of _ "pos tpl"])
  next
    case True
    note lt = this
    show ?thesis
    proof (cases "raw tpl ! nat (pos tpl) = CHR ''{''")
      case False
      let ?t = "tpl\<lparr>length_tpl := length_tpl tpl + 1\<rparr>"
      from wf lt have "rawLen ?t = int (length (raw ?t))" "0 \<le> pos ?t"
        "pos ?t + int 1 \<le> rawLen ?t" "pos ?t < rawLen ?t" "tracked ?t"
        using tr by (auto simp: wellFormed_def tracked_def)
      from fastForward_tracked[OF this] False lt wf step
      have r: "s' = Some ProcessContent"
        "tpl' = ?t\<lparr>pos := pos tpl + 1, line := lineAt (raw tpl) (pos tpl + 1),
                  col := colAt (raw tpl) (pos tpl + 1)\<rparr>"
        by (auto simp: processContent_def getChar_wf)
      from nb False have "\<forall>i\<in>{start tpl..<pos tpl + 1}. raw tpl ! nat i \<noteq> CHR ''{''"
        by (auto simp: less_le)
      with r nd sg sl show ?thesis
        by (intro exI[of _ gs]) (simp add: scannedTo_def)
    next
      case True
      note brace = this
      show ?thesis
      proof (cases "pos tpl + 1 < rawLen tpl")
        case False
        with brace lt wf step have "s' = None" "\<exists>m. tpl' = tpl\<lparr>err := m\<rparr>"
          by (auto simp: processContent_def getChar_wf)
        with fin show ?thesis by blast
      next
        case True
        define t2 where "t2 = tpl\<lparr>pos := pos tpl + 2,
                         line := lineAt (raw tpl) (pos tpl + 2),
                         col := colAt (raw tpl) (pos tpl + 2)\<rparr>"
        define nc where "nc = raw tpl ! nat (pos tpl + 1)"
        from wf tr True lt have ff: "fastForward tpl 2 = Returned (pos tpl + 2 < rawLen tpl, t2)"
          using fastForward_inv[of tpl 2] by (simp add: t2_def)
        from wf True have wf2: "wellFormed t2"
          by (auto simp: wellFormed_def t2_def)
        have op: "openRegion st t2 = Returned (Some st, (flushLiteral t2)\<lparr>start := pos tpl + 2\<rparr>)"
          for st
          using wf2 by (simp add: openRegion_def addContentNode_wf flushLiteral_frame t2_def)
        from brace b True have oa: "openerAt (raw tpl) nc (pos tpl)"
          by (simp add: openerAt_def nc_def)
        show ?thesis
        proof (cases "nc = CHR ''#'' \<or> nc = CHR ''%'' \<or> nc = CHR ''{''")
          case False
          with brace lt True wf ff step have "s' = None" "\<exists>m. tpl' = t2\<lparr>err := m\<rparr>"
            by (auto simp: processContent_def getChar_wf nc_def)
          moreover have "scannedTo None (t2\<lparr>err := m\<rparr>) gs" for m
            using nd sg b sl by (auto simp: scannedTo_def t2_def intro!: bexI[of _ "start tpl"])
          ultimately show ?thesis by blast
        next
          case known: True
          define st where "st = (if nc = CHR ''#'' then ProcessComment
                                 else if nc = CHR ''%'' then ProcessTag else ProcessFilter)"
          define cc where "cc = (if nc = CHR ''{'' then CHR ''}'' else nc)"
          from known brace lt True wf ff step op
          have r: "s' = Some st" "tpl' = (flushLiteral t2)\<lparr>start := pos tpl + 2\<rparr>"
            by (auto simp: processContent_def getChar_wf nc_def st_def)
          from True b have "pos tpl \<noteq> int (length (raw tpl))" by simp
          with nd sg b sl nb oa known
          have "\<exists>gs'. nodesAt (raw t2) gs' (nodes (flushLiteral t2)) \<and>
                      segments (raw t2) gs' 0 (pos tpl)"
            by (intro flushLiteral_scanned) (auto simp: t2_def)
          then obtain gs' where g: "nodesAt (raw tpl) gs' (nodes (flushLiteral t2))"
            "segments (raw tpl) gs' 0 (pos tpl)"
            by (auto simp: t2_def)
          have fr: "raw (flushLiteral t2) = raw tpl" "pos (flushLiteral t2) = pos tpl + 2"
            "length_tpl (flushLiteral t2) = 0"
            by (simp_all add: flushLiteral_frame t2_def)
          from g oa fr have "inRegion nc cc ((flushLiteral t2)\<lparr>start := pos tpl + 2\<rparr>) gs'"
            by (simp add: inRegion_def)
          with g fr known have "scanned st ((flushLiteral t2)\<lparr>start := pos tpl + 2\<rparr>) gs'"
            by (auto simp: st_def cc_def)
          with r show ?thesis by (auto simp: scannedTo_def)
        qed
      qed
    qed
  qed
qed


lemma inRegion_advance:
  assumes "inRegion oc cc tpl gs" "\<not> closerAt (raw tpl) cc (pos tpl)"
    and "raw t' = raw tpl" "start t' = start tpl" "pos t' = pos tpl + 1"
  shows "inRegion oc cc t' gs"
  using assms by (auto simp: inRegion_def less_le)

lemma inRegion_end:
  assumes "inRegion oc cc tpl gs" "nodesAt (raw tpl) gs (nodes tpl)"
  shows "scannedTo None (tpl\<lparr>err := m\<rparr>) gs"
  using assms
  by (auto simp: scannedTo_def inRegion_def openerAt_def intro!: bexI[of _ "start tpl - 2"])

lemma inRegion_closed:
  assumes "inRegion oc cc tpl gs" "closerAt (raw tpl) cc (pos tpl)"
    and "segFrom g = start tpl - 2" "segTo g = pos tpl + 2"
    and "segOk (raw tpl) g = regionOk (raw tpl) oc cc (start tpl - 2) (pos tpl + 2)"
  shows "segments (raw tpl) (gs @ [g]) 0 (pos tpl + 2)"
  using assms by (simp add: inRegion_def segments_append regionOk_def)

lemma processComment_scanned:
  fixes tpl :: "('h, 'e, 'v) Template"
  assumes inv: "scanInv tpl" and len0: "length_tpl tpl = 0"
    and lay: "scanned ProcessComment tpl gs"
    and step: "processComment tpl = Returned (s', tpl')"
  shows "\<exists>gs'. scannedTo s' tpl' gs'"
proof -
  from inv have wf: "wellFormed tpl" and tr: "tracked tpl"
    by (simp_all add: scanInv_def)
  from wf have b: "0 \<le> pos tpl" "pos tpl \<le> int (length (raw tpl))"
    "rawLen tpl = int (length (raw tpl))"
    by (auto simp: wellFormed_def)
  from lay have nd: "nodesAt (raw tpl) gs (nodes tpl)"
    and reg: "inRegion (CHR ''#'') (CHR ''#'') tpl gs"
    by simp_all
  note fin = inRegion_end[OF reg nd]
  show ?thesis
  proof (cases "pos tpl < rawLen tpl")
    case False
    with wf step have "s' = None" "\<exists>m. tpl' = tpl\<lparr>err := m\<rparr>"
      by (auto simp: processComment_def Let_def getChar_wf)
    with fin show ?thesis by blast
  next
    case True
    define t1 where "t1 = tpl\<lparr>pos := pos tpl + 1,
                         line := lineAt (raw tpl) (pos tpl + 1),
                         col := colAt (raw tpl) (pos tpl + 1)\<rparr>"
    from wf tr True have ff1: "fastForward tpl 1 = Returned (pos tpl + 1 < rawLen tpl, t1)"
      using fastForward_inv[of tpl 1] by (simp add: t1_def)
    show ?thesis
    proof (cases "closerAt (raw tpl) (CHR ''#'') (pos tpl)")
      case False
      with True wf b ff1 step
      have "(s' = None \<and> (\<exists>m. tpl' = tpl\<lparr>err := m\<rparr>)) \<or> (s' = Some ProcessComment \<and> tpl' = t1)"
        by (auto simp: processComment_def Let_def getChar_wf closerAt_def split: if_splits)
      moreover have "scannedTo (Some ProcessComment) t1 gs"
        using nd inRegion_advance[OF reg False, of t1] by (simp add: scannedTo_Some t1_def)
      ultimately show ?thesis using fin by blast
    next
      case c: True
      define t2 where "t2 = tpl\<lparr>pos := pos tpl + 2,
                         line := lineAt (raw tpl) (pos tpl + 2),
                         col := colAt (raw tpl) (pos tpl + 2)\<rparr>"
      from c b have c': "raw tpl ! nat (pos tpl) = CHR ''#''" "pos tpl + 1 < rawLen tpl"
        "raw tpl ! nat (pos tpl + 1) = CHR ''}''"
        by (simp_all add: closerAt_def)
      from wf tr True c' have ff2: "fastForward tpl 2 = Returned (pos tpl + 2 < rawLen tpl, t2)"
        using fastForward_inv[of tpl 2] by (simp add: t2_def)
      from True c' wf ff2 step have r: "s' = Some ProcessContent" "tpl' = t2\<lparr>start := pos tpl + 2\<rparr>"
        by (auto simp: processComment_def Let_def getChar_wf t2_def)
      let ?g = "CommentSeg (start tpl - 2) (pos tpl + 2)"
      have "segments (raw tpl) (gs @ [?g]) 0 (pos tpl + 2)"
        by (rule inRegion_closed[OF reg c]) simp_all
      with nd len0 have "scannedTo (Some ProcessContent) (t2\<lparr>start := pos tpl + 2\<rparr>) (gs @ [?g])"
        by (simp add: scannedTo_Some t2_def nodesAt_comment)
      with r show ?thesis by blast
    qed
  qed
qed

lemma nodeAt_region:
  fixes nd :: "('h, 'e) node"
  assumes "tracked tpl" "start tpl + length_tpl tpl = pos tpl"
    and "emitOffset (raw tpl) g = pos tpl"
    and "segText (raw tpl) g = TrimSpace (sourceText (raw tpl) (start tpl) (pos tpl))"
    and "sameKind g nd" "getLine nd = line tpl" "getCol nd = col tpl"
    and "getContent nd = TrimSpace (captured tpl)"
  shows "nodeAt (raw tpl) g nd"
proof -
  from assms(2) have "length_tpl tpl = pos tpl - start tpl" by simp
  with assms show ?thesis
    by (simp add: nodeAt_def tracked_def captured_def sourceText_def)
qed

lemma processFilter_scanned:
  fixes tpl :: "('h, 'e, 'v) Template"
  assumes inv: "scanInv tpl" and lay: "scanned ProcessFilter tpl gs"
    and step: "processFilter X tpl = Returned (s', tpl')"
  shows "\<exists>gs'. scannedTo s' tpl' gs'"
proof -
  from inv have wf: "wellFormed tpl" and tr: "tracked tpl"
    by (simp_all add: scanInv_def)
  from wf have b: "0 \<le> pos tpl" "pos tpl \<le> int (length (raw tpl))"
    "rawLen tpl = int (length (raw tpl))"
    by (auto simp: wellFormed_def)
  from lay have nd: "nodesAt (raw tpl) gs (nodes tpl)"
    and reg: "inRegion (CHR ''{'') (CHR ''}'') tpl gs"
    and sl: "start tpl + length_tpl tpl = pos tpl"
    by simp_all
  note fin = inRegion_end[OF reg nd]
  show ?thesis
  proof (cases "pos tpl < rawLen tpl")
    case False
    with wf step have "s' = None" "\<exists>m. tpl' = tpl\<lparr>err := m\<rparr>"
      by (auto simp: processFilter_def Let_def getChar_wf)
    with fin show ?thesis by blast
  next
    case True
    show ?thesis
    proof (cases "closerAt (raw tpl) (CHR ''}'') (pos tpl)")
      case False
      let ?t = "tpl\<lparr>length_tpl := length_tpl tpl + 1\<rparr>"
      define t1 where "t1 = ?t\<lparr>pos := pos tpl + 1,
                         line := lineAt (raw tpl) (pos tpl + 1),
                         col := colAt (raw tpl) (pos tpl + 1)\<rparr>"
      from wf True have "rawLen ?t = int (length (raw ?t))" "0 \<le> pos ?t"
        "pos ?t + int 1 \<le> rawLen ?t" "pos ?t < rawLen ?t" "tracked ?t"
        using tr by (auto simp: wellFormed_def tracked_def)
      from fastForward_tracked[OF this]
      have ff1: "fastForward ?t 1 = Returned (pos tpl + 1 < rawLen tpl, t1)"
        by (simp add: t1_def)
      from False True wf b ff1 step
      have "(s' = None \<and> (\<exists>m. tpl' = tpl\<lparr>err := m\<rparr>)) \<or> (s' = Some ProcessFilter \<and> tpl' = t1)"
        by (auto simp: processFilter_def Let_def getChar_wf closerAt_def split: if_splits)
      moreover have "scannedTo (Some ProcessFilter) t1 gs"
        using nd sl inRegion_advance[OF reg False, of t1] by (simp add: scannedTo_Some t1_def)
      ultimately show ?thesis using fin by blast
    next
      case c: True
      from c b have c': "raw tpl ! nat (pos tpl) = CHR ''}''" "pos tpl + 1 < rawLen tpl"
        "raw tpl ! nat (pos tpl + 1) = CHR ''}''"
        by (simp_all add: closerAt_def)
      define emit where "emit = (\<lambda>ex. tpl\<lparr>start := pos tpl, length_tpl := 0,
           nodes := nodes tpl @ [FilterNode (line tpl) (col tpl) (TrimSpace (captured tpl)) ex]\<rparr>)"
      define moved where "moved = (\<lambda>ex. (emit ex)\<lparr>pos := pos tpl + 2,
                         line := lineAt (raw tpl) (pos tpl + 2),
                         col := colAt (raw tpl) (pos tpl + 2)\<rparr>)"
      have ff2: "fastForward (emit ex) 2 = Returned (pos tpl + 2 < rawLen tpl, moved ex)" for ex
      proof -
        from wf tr c' have "wellFormed (emit ex)" "tracked (emit ex)"
          "pos (emit ex) + int 2 \<le> rawLen (emit ex)" "pos (emit ex) < rawLen (emit ex)"
          by (auto simp: emit_def wellFormed_def tracked_def)
        from fastForward_inv[OF this] show ?thesis
          by (simp add: moved_def emit_def)
      qed
      have pm: "pos (moved ex) = pos tpl + 2" for ex
        by (simp add: moved_def emit_def)
      from True c' wf ff2 step
      have "(s' = None \<and> (\<exists>m. tpl' = tpl\<lparr>err := m\<rparr>)) \<or>
            (s' = Some ProcessContent \<and> (\<exists>ex. tpl' = (moved ex)\<lparr>start := pos tpl + 2\<rparr>))"
        by (auto simp: pm processFilter_def Let_def getChar_wf addFilterNode_def slice_wf
            captured_def emit_def split: if_splits sum.splits)
      moreover have "scannedTo (Some ProcessContent) ((moved ex)\<lparr>start := pos tpl + 2\<rparr>)
                       (gs @ [FilterSeg (start tpl - 2) (pos tpl + 2)])" for ex
      proof -
        let ?g = "FilterSeg (start tpl - 2) (pos tpl + 2)"
        let ?nd = "FilterNode (line tpl) (col tpl) (TrimSpace (captured tpl)) ex :: ('h, 'e) node"
        have sg: "segments (raw tpl) (gs @ [?g]) 0 (pos tpl + 2)"
          by (rule inRegion_closed[OF reg c]) simp_all
        have "nodeAt (raw tpl) ?g ?nd"
          by (rule nodeAt_region[OF tr sl]) simp_all
        with nd have "nodesAt (raw tpl) (gs @ [?g]) (nodes tpl @ [?nd])"
          by (intro nodesAt_node) simp_all
        with sg show ?thesis
          by (simp add: scannedTo_Some moved_def emit_def)
      qed
      ultimately show ?thesis using fin by blast
    qed
  qed
qed

lemma processTag_scanned:
  fixes tpl :: "('h, 'e, 'v) Template"
  assumes inv: "scanInv tpl" and lay: "scanned ProcessTag tpl gs"
    and step: "processTag X tpl = Returned (s', tpl')"
  shows "\<exists>gs'. scannedTo s' tpl' gs'"
proof -
  from inv have wf: "wellFormed tpl" and tr: "tracked tpl"
    by (simp_all add: scanInv_def)
  from wf have b: "0 \<le> pos tpl" "pos tpl \<le> int (length (raw tpl))"
    "rawLen tpl = int (length (raw tpl))"
    by (auto simp: wellFormed_def)
  from lay have nd: "nodesAt (raw tpl) gs (nodes tpl)"
    and reg: "inRegion (CHR ''%'') (CHR ''%'') tpl gs"
    and sl: "start tpl + length_tpl tpl = pos tpl"
    by simp_all
  note fin = inRegion_end[OF reg nd]
  show ?thesis
  proof (cases "pos tpl < rawLen tpl")
    case False
    with wf step have "s' = None" "\<exists>m. tpl' = tpl\<lparr>err := m\<rparr>"
      by (auto simp: processTag_def Let_def getChar_wf)
    with fin show ?thesis by blast
  next
    case True
    show ?thesis
    proof (cases "closerAt (raw tpl) (CHR ''%'') (pos tpl)")
      case False
      let ?t = "tpl\<lparr>length_tpl := length_tpl tpl + 1\<rparr>"
      define t1 where "t1 = ?t\<lparr>pos := pos tpl + 1,
                         line := lineAt (raw tpl) (pos tpl + 1),
                         col := colAt (raw tpl) (pos tpl + 1)\<rparr>"
      from wf True have "rawLen ?t = int (length (raw ?t))" "0 \<le> pos ?t"
        "pos ?t + int 1 \<le> rawLen ?t" "pos ?t < rawLen ?t" "tracked ?t"
        using tr by (auto simp: wellFormed_def tracked_def)
      from fastForward_tracked[OF this]
      have ff1: "fastForward ?t 1 = Returned (pos tpl + 1 < rawLen tpl, t1)"
        by (simp add: t1_def)
      from False True wf b ff1 step
      have "(s' = None \<and> (\<exists>m. tpl' = tpl\<lparr>err := m\<rparr>)) \<or> (s' = Some ProcessTag \<and> tpl' = t1)"
        by (auto simp: processTag_def Let_def getChar_wf closerAt_def split: if_splits)
      moreover have "scannedTo (Some ProcessTag) t1 gs"
        using nd sl inRegion_advance[OF reg False, of t1] by (simp add: scannedTo_Some t1_def)
      ultimately show ?thesis using fin by blast
    next
      case c: True
      from c b have c': "raw tpl ! nat (pos tpl) = CHR ''%''" "pos tpl + 1 < rawLen tpl"
        "raw tpl ! nat (pos tpl + 1) = CHR ''}''"
        by (simp_all add: closerAt_def)
      define emit where "emit = (\<lambda>tn ta th. tpl\<lparr>start := pos tpl, length_tpl := 0,
           nodes := nodes tpl @
             [TagNode (line tpl) (col tpl) (TrimSpace (captured tpl)) tn ta th]\<rparr>)"
      define moved where "moved = (\<lambda>tn ta th. (emit tn ta th)\<lparr>pos := pos tpl + 2,
                         line := lineAt (raw tpl) (pos tpl + 2),
                         col := colAt (raw tpl) (pos tpl + 2)\<rparr>)"
      have ff2: "fastForward (emit tn ta th) 2 =
                   Returned (pos tpl + 2 < rawLen tpl, moved tn ta th)" for tn ta th
      proof -
        from wf tr c' have "wellFormed (emit tn ta th)" "tracked (emit tn ta th)"
          "pos (emit tn ta th) + int 2 \<le> rawLen (emit tn ta th)"
          "pos (emit tn ta th) < rawLen (emit tn ta th)"
          by (auto simp: emit_def wellFormed_def tracked_def)
        from fastForward_inv[OF this] show ?thesis
          by (simp add: moved_def emit_def)
      qed
      have pm: "pos (moved tn ta th) = pos tpl + 2" for tn ta th
        by (simp add: moved_def emit_def)
      from True c' wf ff2 step
      have "(s' = None \<and> (\<exists>m. tpl' = tpl\<lparr>err := m\<rparr>)) \<or>
            (s' = Some ProcessContent \<and>
             (\<exists>tn ta th. tpl' = (moved tn ta th)\<lparr>start := pos tpl + 2\<rparr>))"
        by (auto simp: pm processTag_def Let_def getChar_wf addTagNode_def slice_wf
            captured_def emit_def split: if_splits list.splits option.splits)
           blast+
      moreover have "scannedTo (Some ProcessContent) ((moved tn ta th)\<lparr>start := pos tpl + 2\<rparr>)
                       (gs @ [TagSeg (start tpl - 2) (pos tpl + 2)])" for tn ta th
      proof -
        let ?g = "TagSeg (start tpl - 2) (pos tpl + 2)"
        let ?nd = "TagNode (line tpl) (col tpl) (TrimSpace (captured tpl)) tn ta th
                     :: ('h, 'e) node"
        have sg: "segments (raw tpl) (gs @ [?g]) 0 (pos tpl + 2)"
          by (rule inRegion_closed[OF reg c]) simp_all
        have "nodeAt (raw tpl) ?g ?nd"
          by (rule nodeAt_region[OF tr sl]) simp_all
        with nd have "nodesAt (raw tpl) (gs @ [?g]) (nodes tpl @ [?nd])"
          by (intro nodesAt_node) simp_all
        with sg show ?thesis
          by (simp add: scannedTo_Some moved_def emit_def)
      qed
      ultimately show ?thesis using fin by blast
    qed
  qed
qed

lemma callState_scanned:
  fixes tpl :: "('h, 'e, 'v) Template"
  assumes "stateInv s tpl" "scanned s tpl gs" "callState X s tpl = Returned (s', tpl')"
  shows "\<exists>gs'. scannedTo s' tpl' gs'"
proof (cases s)
  case ProcessContent
  with assms processContent_scanned[of tpl gs s' tpl'] show ?thesis
    by (simp add: stateInv_def)
next
  case ProcessComment
  with assms processComment_scanned[of tpl gs s' tpl'] show ?thesis
    by (simp add: stateInv_def)
next
  case ProcessFilter
  with assms processFilter_scanned[of tpl gs X s' tpl'] show ?thesis
    by (simp add: stateInv_def)
next
  case ProcessTag
  with assms processTag_scanned[of tpl gs X s' tpl'] show ?thesis
    by (simp add: stateInv_def)
qed

lemma runStates_scanned:
  fixes tpl :: "('h, 'e, 'v) Template"
  shows "stateInv s tpl \<Longrightarrow> scanned s tpl gs \<Longrightarrow> runStates X s tpl = Returned tpl' \<Longrightarrow>
     \<exists>gs'. scannedTo None tpl' gs'"
proof (induction X s tpl arbitrary: gs rule: runStates.induct)
  case (1 X s tpl)
  from callState_inv[OF "1.prems"(1), of X] obtain s' t1 where
    c: "callState X s tpl = Returned (s', t1)"
      "\<forall>st. s' = Some st \<longrightarrow> stateInv st t1"
    by blast
  from callState_scanned[OF "1.prems"(1,2) c(1)] obtain gs1 where
    g: "scannedTo s' t1 gs1"
    by blast
  show ?case
  proof (cases s')
    case None
    with c "1.prems"(3) have "tpl' = t1" by (subst (asm) runStates.simps) simp
    with g None show ?thesis by blast
  next
    case (Some st)
    with c have i: "stateInv st t1" by simp
    from g Some have l: "scanned st t1 gs1" by (simp add: scannedTo_def)
    from c Some "1.prems"(3) have r: "runStates X st t1 = Returned tpl'"
      by (subst (asm) runStates.simps) simp
    from "1.IH"[OF c(1)[unfolded Some] refl refl i l r] show ?thesis .
  qed
qed


text \<open>The segments of a source are determined by the source.\<close>

lemma regionOk_unique:
  assumes "regionOk s oc cc a b" "regionOk s oc cc a b'"
  shows "b = b'"
proof (rule ccontr)
  assume "b \<noteq> b'"
  then consider "b < b'" | "b' < b" by linarith
  then show False
  proof cases
    case 1
    with assms have "b - 2 \<in> {a + 2..<b' - 2}" "closerAt s cc (b - 2)"
      by (auto simp: regionOk_def)
    with assms(2) show False by (auto simp: regionOk_def)
  next
    case 2
    with assms have "b' - 2 \<in> {a + 2..<b - 2}" "closerAt s cc (b' - 2)"
      by (auto simp: regionOk_def)
    with assms(1) show False by (auto simp: regionOk_def)
  qed
qed

lemma literal_unique:
  assumes "segOk s (LiteralSeg a b)" "segOk s (LiteralSeg a b')"
  shows "b = b'"
proof (rule ccontr)
  assume "b \<noteq> b'"
  then consider "b < b'" | "b' < b" by linarith
  then show False
  proof cases
    case 1
    with assms have "s ! nat b = CHR ''{''" "b \<in> {a..<b'}"
      by (auto simp: openerAt_def)
    with assms(2) show False by auto
  next
    case 2
    with assms have "s ! nat b' = CHR ''{''" "b' \<in> {a..<b}"
      by (auto simp: openerAt_def)
    with assms(1) show False by auto
  qed
qed

lemma segOk_first:
  assumes "segOk s g" "segFrom g = a"
  shows "(\<exists>b. g = LiteralSeg a b \<and> s ! nat a \<noteq> CHR ''{'') \<or>
         (\<exists>b. g = CommentSeg a b \<and> s ! nat a = CHR ''{'' \<and> s ! nat (a + 1) = CHR ''#'') \<or>
         (\<exists>b. g = FilterSeg a b \<and> s ! nat a = CHR ''{'' \<and> s ! nat (a + 1) = CHR ''{'') \<or>
         (\<exists>b. g = TagSeg a b \<and> s ! nat a = CHR ''{'' \<and> s ! nat (a + 1) = CHR ''%'')"
  using assms by (cases g) (auto simp: regionOk_def openerAt_def)

lemma segOk_unique:
  assumes "segOk s g" "segOk s g'" "segFrom g = segFrom g'"
  shows "g = g'"
proof -
  from assms(3) obtain a where a: "segFrom g = a" "segFrom g' = a" by simp
  from segOk_first[OF assms(1) a(1)] segOk_first[OF assms(2) a(2)]
  consider (L) b b' where "g = LiteralSeg a b" "g' = LiteralSeg a b'"
    | (C) b b' where "g = CommentSeg a b" "g' = CommentSeg a b'"
    | (F) b b' where "g = FilterSeg a b" "g' = FilterSeg a b'"
    | (T) b b' where "g = TagSeg a b" "g' = TagSeg a b'"
    by (elim disjE exE conjE; simp)
  then show ?thesis
  proof cases
    case L
    with assms literal_unique[of s a b b'] show ?thesis by simp
  next
    case C
    with assms regionOk_unique[of s _ _ a b b'] show ?thesis by simp
  next
    case F
    with assms regionOk_unique[of s _ _ a b b'] show ?thesis by simp
  next
    case T
    with assms regionOk_unique[of s _ _ a b b'] show ?thesis by simp
  qed
qed

lemma segments_prefix:
  "segments s gs lo hi \<Longrightarrow> segments s gs' lo hi' \<Longrightarrow> length gs' \<le> length gs \<Longrightarrow>
     take (length gs') gs = gs'"
proof (induction gs' arbitrary: gs lo)
  case Nil
  then show ?case by simp
next
  case (Cons g' gs'')
  then obtain g gs0 where gs: "gs = g # gs0" by (cases gs) auto
  with Cons.prems have "segFrom g = segFrom g'" "segOk s g" "segOk s g'" by simp_all
  then have e: "g = g'" by (intro segOk_unique[of s]) simp_all
  with Cons.prems gs have "take (length gs'') gs0 = gs''"
    by (intro Cons.IH[of gs0 "segTo g"]) simp_all
  with gs e show ?case by simp
qed

section \<open>Parsing a fresh template; execution errors\<close>

lemma lineAt_0: "s \<noteq> [] \<Longrightarrow> lineAt s 0 = (if s ! 0 = CHR 0x0A then 2 else 1)"
  by (cases s) (simp_all add: lineAt_def lineOf_def)

lemma colAt_0: "s \<noteq> [] \<Longrightarrow> colAt s 0 = (if s ! 0 = CHR 0x0A then 0 else 1)"
  by (cases s) (simp_all add: colAt_def colOf_def)

lemma updatePosition_fresh:
  fixes tpl :: "('h, 'e, 'v) Template"
  assumes "newTemplate nm src loc = (Some tpl, None)"
  shows "\<exists>b t1. updatePosition tpl = Returned (b, t1) \<and> stateInv ProcessContent t1 \<and>
           sameSource tpl t1 \<and> scanned ProcessContent t1 []"
proof -
  from assms have ne: "src \<noteq> []" and t: "tpl = \<lparr>name = nm, parsed = False, raw = src,
      rawLen = int (length src), pos = 0, start = 0, length_tpl = 0, err = [],
      line = 1, col = 0, autosafe = True, nodes = [], node_pos = 0,
      locator = loc, internal_context = Some Map.empty\<rparr>"
    by (auto simp: newTemplate_def Let_def split: if_splits)
  from ne show ?thesis
    by (auto simp: t updatePosition_def hasReachedEnd_def index_at_def stateInv_def
        scanInv_def wellFormed_def tracked_def sameSource_def lineAt_0 colAt_0 nodesAt_def)
qed

lemma parse_fresh:
  fixes tpl :: "('h, 'e, 'v) Template"
  assumes "newTemplate nm src loc = (Some tpl, None)"
  shows "\<exists>tpl' gs. scanInv tpl' \<and> raw tpl' = src \<and> name tpl' = nm \<and>
           scannedTo None tpl' gs \<and>
           parse X tpl =
             (if err tpl' = [] then Returned (None, tpl'\<lparr>parsed := True\<rparr>)
              else Returned (Some (ParsingError nm (line tpl') (col tpl') (err tpl')), tpl'))"
proof -
  from assms have f: "\<not> parsed tpl" "raw tpl = src" "name tpl = nm"
    by (auto simp: newTemplate_def Let_def split: if_splits)
  from updatePosition_fresh[OF assms] obtain b t1 where
    t1: "updatePosition tpl = Returned (b, t1)" "stateInv ProcessContent t1" "sameSource tpl t1"
      "scanned ProcessContent t1 []"
    by blast
  from runStates_inv[OF t1(2), of X] obtain t2 where
    t2: "runStates X ProcessContent t1 = Returned t2" "scanInv t2" "sameSource t1 t2"
    by blast
  from runStates_scanned[OF t1(2) t1(4) t2(1)] obtain gs where
    g: "scannedTo None t2 gs"
    by blast
  from t1 t2 f have "raw t2 = src" "name t2 = nm" by (simp_all add: sameSource_def)
  with t1 t2 f g show ?thesis
    by (intro exI[of _ t2] exI[of _ gs]) (simp add: parse_def)
qed

lemma index_at_mem: "index_at xs i = Returned x \<Longrightarrow> x \<in> set xs"
  by (auto simp: index_at_def split: if_splits)

lemma execute_keeps_nodes:
  "keepsNodes X \<Longrightarrow> execute X nd tpl ctx = (r, tpl', ctx') \<Longrightarrow> nodes tpl' = nodes tpl"
proof (cases nd)
  case (TagNode l c s tn ta th)
  assume k: "keepsNodes X" and e: "execute X nd tpl ctx = (r, tpl', ctx')"
  show ?thesis
  proof (cases th)
    case None
    with e TagNode show ?thesis by simp
  next
    case (Some h)
    with e TagNode have "tagExecute X h ta tpl ctx = (r, tpl', ctx')" by simp
    with k[unfolded keepsNodes_def, rule_format, of h ta tpl ctx] show ?thesis by simp
  qed
qed (auto split: prod.splits)

lemma execute_plain:
  "\<not> handled nd \<Longrightarrow> execute X nd tpl ctx = (r, tpl', ctx') \<Longrightarrow> tpl' = tpl"
proof (cases nd)
  case (TagNode l c s tn ta th)
  assume "\<not> handled nd" "execute X nd tpl ctx = (r, tpl', ctx')"
  with TagNode show ?thesis by (cases th) auto
qed (auto split: prod.splits)

lemma ExecuteLoop_failing:
  assumes "ExecuteLoop X tpl ctx rs = Some y"
    and "y = Returned ((out, Some e), tpl', ctx')"
  shows "\<exists>s c nd o1 e1. index_at (nodes s) (node_pos s) = Returned nd \<and>
           execute X nd s c = ((o1, Some e1), tpl', ctx') \<and>
           e = ExecutionError (name tpl') (getLine nd) (getCol nd) (getContent nd) e1 \<and>
           (keepsNodes X \<longrightarrow> nodes s = nodes tpl)"
  using assms
proof (induction X tpl ctx rs y rule: ExecuteLoop.raw_induct[rotated 1, consumes 1])
  case (1 loop X tpl ctx rs y)
  show ?case
  proof (cases "node_pos tpl < int (length (nodes tpl))")
    case False
    with "1.hyps" "1.prems" show ?thesis by simp
  next
    case True
    with "1.hyps" "1.prems" obtain nd where
      nd: "index_at (nodes tpl) (node_pos tpl) = Returned nd"
      by (auto split: outcome.splits)
    obtain o1 e1 t1 c1 where ex: "execute X nd tpl ctx = ((o1, e1), t1, c1)"
      by (metis prod.exhaust)
    show ?thesis
    proof (cases e1)
      case (Some er)
      with "1.hyps" "1.prems" True nd ex
      have "tpl' = t1" "ctx' = c1"
        "e = ExecutionError (name t1) (getLine nd) (getCol nd) (getContent nd) er"
        by (cases o1; simp)+
      with nd ex Some show ?thesis by blast
    next
      case None
      show ?thesis
      proof (cases o1)
        case None
        with \<open>e1 = None\<close> "1.hyps" "1.prems" True nd ex show ?thesis by simp
      next
        case (Some str)
        with \<open>e1 = None\<close> "1.hyps" True nd ex
        have "loop X (t1\<lparr>node_pos := node_pos t1 + 1\<rparr>) c1 (rs @ [str]) = Some y"
          by simp
        from "1.IH"[OF this "1.prems"] obtain s c nd' o2 e2 where
          s: "index_at (nodes s) (node_pos s) = Returned nd'"
            "execute X nd' s c = ((o2, Some e2), tpl', ctx')"
            "e = ExecutionError (name tpl') (getLine nd') (getCol nd') (getContent nd') e2"
            "keepsNodes X \<longrightarrow> nodes s = nodes (t1\<lparr>node_pos := node_pos t1 + 1\<rparr>)"
          by blast
        have "nodes s = nodes tpl" if "keepsNodes X"
          using s(4) that execute_keeps_nodes[OF that ex] by simp
        with s(1-3) show ?thesis by blast
      qed
    qed
  qed
qed

lemma executeUntilLoop_failing:
  assumes "executeUntilLoop X tpl ctx names rs = Some y"
    and "y = Returned ((nd0, out, Some e), tpl', ctx')"
  shows "e = NoEndNode names \<or>
         (\<exists>s c nd o1 e1. index_at (nodes s) (node_pos s) = Returned nd \<and>
           execute X nd s c = ((o1, Some e1), tpl', ctx') \<and>
           e = BlockExecutionError (name tpl') (getLine nd) (getCol nd) (getContent nd) e1 \<and>
           (keepsNodes X \<longrightarrow> nodes s = nodes tpl))"
  using assms
proof (induction X tpl ctx names rs y rule: executeUntilLoop.raw_induct[rotated 1, consumes 1])
  case (1 loop X tpl ctx names rs y)
  show ?case
  proof (cases "node_pos tpl < int (length (nodes tpl))")
    case False
    with "1.hyps" "1.prems" show ?thesis by simp
  next
    case True
    with "1.hyps" "1.prems" obtain nd where
      nd: "index_at (nodes tpl) (node_pos tpl) = Returned nd"
      by (auto split: outcome.splits)
    show ?thesis
    proof (cases "isEndNode nd names")
      case True
      with "1.hyps" "1.prems" nd \<open>node_pos tpl < int (length (nodes tpl))\<close>
      show ?thesis by simp
    next
      case False
      obtain o1 e1 t1 c1 where ex: "execute X nd tpl ctx = ((o1, e1), t1, c1)"
        by (metis prod.exhaust)
      show ?thesis
      proof (cases e1)
        case (Some er)
        with "1.hyps" "1.prems" True False nd ex
        have "tpl' = t1" "ctx' = c1"
          "e = BlockExecutionError (name t1) (getLine nd) (getCol nd) (getContent nd) er"
          by (cases o1; simp)+
        with nd ex Some show ?thesis by blast
      next
        case None
        show ?thesis
        proof (cases o1)
          case None
          with \<open>e1 = None\<close> "1.hyps" "1.prems" True False nd ex show ?thesis by simp
        next
          case (Some str)
          with \<open>e1 = None\<close> "1.hyps" True False nd ex
          have "loop X (t1\<lparr>node_pos := node_pos t1 + 1\<rparr>) c1 names (rs @ [str]) = Some y"
            by simp
          from "1.IH"[OF this "1.prems"]
          have "e = NoEndNode names \<or>
            (\<exists>s c nd o1 e1. index_at (nodes s) (node_pos s) = Returned nd \<and>
               execute X nd s c = ((o1, Some e1), tpl', ctx') \<and>
               e = BlockExecutionError (name tpl') (getLine nd) (getCol nd) (getContent nd) e1 \<and>
               (keepsNodes X \<longrightarrow> nodes s = nodes (t1\<lparr>node_pos := node_pos t1 + 1\<rparr>)))" .
          moreover have "nodes (t1\<lparr>node_pos := node_pos t1 + 1\<rparr>) = nodes tpl" if "keepsNodes X"
            using that execute_keeps_nodes[OF that ex] by simp
          ultimately show ?thesis by metis
        qed
      qed
    qed
  qed
qed

lemma Execute_failing_node:
  assumes "index_at (nodes s) (node_pos s) = Returned nd"
    and "execute X nd s c = ((o1, Some e1), s', c')" "c \<noteq> None"
  shows "Execute X s c =
           Some (Returned ((None, Some (ExecutionError (name s') (getLine nd) (getCol nd)
                                          (getContent nd) e1)), s', c'))"
proof -
  from assms(1) have "node_pos s < int (length (nodes s))"
    by (simp add: index_at_def split: if_splits)
  with assms have "ExecuteLoop X s c [] =
           Some (Returned ((None, Some (ExecutionError (name s') (getLine nd) (getCol nd)
                                          (getContent nd) e1)), s', c'))"
    by (subst ExecuteLoop.simps) (cases o1; simp)
  with assms(3) show ?thesis by (auto simp: Execute_def)
qed

lemma nodesAt_nth:
  assumes "nodesAt s gs N" "index_at N i = Returned nd"
  shows "nodeAt s (filter rendersNode gs ! nat i) nd"
proof -
  from assms(2) have "0 \<le> i" "nat i < length N" "nd = N ! nat i"
    by (auto simp: index_at_def split: if_splits)
  with assms(1) show ?thesis
    by (simp add: nodesAt_def list_all2_nthD2)
qed


section \<open>Steps of the scanner on a well-formed state\<close>

lemma fastForward_pos:
  assumes "rawLen tpl = int (length (raw tpl))" "0 \<le> pos tpl" "pos tpl + int n \<le> rawLen tpl"
  shows "\<exists>b l c. fastForward tpl n =
           Returned (b, tpl\<lparr>pos := pos tpl + int n, line := l, col := c\<rparr>)"
  using assms
proof (induction n arbitrary: tpl)
  case 0
  have "tpl = tpl\<lparr>pos := pos tpl + int 0, line := line tpl, col := col tpl\<rparr>" by simp
  then show ?case by (metis fastForward.simps(1))
next
  case (Suc n)
  let ?t1 = "tpl\<lparr>pos := pos tpl + 1\<rparr>"
  show ?case
  proof (cases "pos tpl + 1 < rawLen tpl")
    case False
    with Suc.prems have n: "n = 0" by auto
    from False have "updatePosition ?t1 = Returned (False, ?t1)"
      by (simp add: updatePosition_def hasReachedEnd_def)
    then have "fastForward tpl (Suc n) =
        Returned (False, tpl\<lparr>pos := pos tpl + int (Suc n), line := line tpl, col := col tpl\<rparr>)"
      unfolding n by (simp add: fastForward.simps)
    then show ?thesis by blast
  next
    case True
    define l1 where "l1 = (if raw tpl ! nat (pos tpl + 1) = CHR 0x0A then line tpl + 1
                           else line tpl)"
    define c1 where "c1 = (if raw tpl ! nat (pos tpl + 1) = CHR 0x0A then 0 else col tpl + 1)"
    from True Suc.prems have
      u: "updatePosition ?t1 = Returned (True, tpl\<lparr>pos := pos tpl + 1, line := l1, col := c1\<rparr>)"
      by (simp add: updatePosition_def hasReachedEnd_def index_at_def l1_def c1_def)
    let ?t2 = "tpl\<lparr>pos := pos tpl + 1, line := l1, col := c1\<rparr>"
    from True Suc.prems have "\<exists>b l c. fastForward ?t2 n =
           Returned (b, ?t2\<lparr>pos := pos ?t2 + int n, line := l, col := c\<rparr>)"
      by (intro Suc.IH) auto
    then obtain b l c where "fastForward ?t2 n =
           Returned (b, tpl\<lparr>pos := pos tpl + int (Suc n), line := l, col := c\<rparr>)"
      by (auto simp: add.assoc)
    with u have "fastForward tpl (Suc n) =
           Returned (b, tpl\<lparr>pos := pos tpl + int (Suc n), line := l, col := c\<rparr>)"
      by (simp add: fastForward.simps)
    then show ?thesis by blast
  qed
qed

lemma trimLeftSeqs_Nil: "trimLeftSeqs ws [] = []"
proof -
  have "find (\<lambda>w. w \<noteq> [] \<and> take (length w) [] = w) ws = None"
    by (auto simp: find_None_iff)
  then show ?thesis by (subst trimLeftSeqs.simps) simp
qed

lemma TrimSpace_Nil: "TrimSpace [] = []"
  by (simp add: TrimSpace_def trimLeftSeqs_Nil)

lemma takeWhile_no_space:
  "CHR 0x20 \<notin> set s \<Longrightarrow> takeWhile (\<lambda>c. c \<noteq> CHR 0x20) s = s"
  by (auto simp: takeWhile_eq_all_conv)

lemma SplitN2_space:
  "CHR 0x20 \<in> set s \<Longrightarrow>
     SplitN2 s = [takeWhile (\<lambda>c. c \<noteq> CHR 0x20) s,
                  drop (Suc (length (takeWhile (\<lambda>c. c \<noteq> CHR 0x20) s))) s]"
  by (simp add: SplitN2_def dropWhile_eq_drop drop_Suc tl_drop)

lemma SplitN2_no_space: "CHR 0x20 \<notin> set s \<Longrightarrow> SplitN2 s = [s]"
  by (simp add: SplitN2_def)

section \<open>The execution loops and the walks over the node list\<close>

lemma execute_protocol:
  assumes "cursorProtocol X N" "nodes tpl = N" "execute X nd tpl ctx = (r, tpl', ctx')"
  shows "nodes tpl' = N \<and> node_pos tpl \<le> node_pos tpl'"
proof (cases nd)
  case (TagNode l c s tn ta th)
  show ?thesis
  proof (cases th)
    case None
    with assms TagNode show ?thesis by simp
  next
    case (Some h)
    with assms(3) TagNode have "tagExecute X h ta tpl ctx = (r, tpl', ctx')" by simp
    with assms(1)[unfolded cursorProtocol_def, rule_format, OF assms(2), of h ta ctx]
    show ?thesis by simp
  qed
qed (use assms in \<open>auto split: prod.splits\<close>)

lemma executeUntilLoop_refines:
  fixes tpl :: "('h, 'e, 'v) Template"
  assumes "cursorProtocol X N"
  shows "nodes tpl = N \<Longrightarrow> 0 \<le> node_pos tpl \<Longrightarrow>
         executeUntilLoop X tpl ctx names out =
           Some (runUntilAnyOf X names (drop (nat (node_pos tpl)) N) tpl ctx out)"
proof (induction "length N - nat (node_pos tpl)" arbitrary: tpl ctx out rule: less_induct)
  case less
  note N = less.prems(1) and p0 = less.prems(2)
  show ?case
  proof (cases "node_pos tpl < int (length N)")
    case False
    with N p0 show ?thesis
      by (subst executeUntilLoop.simps) simp
  next
    case True
    define k where "k = nat (node_pos tpl)"
    from True p0 have k: "k < length N" "node_pos tpl = int k" by (simp_all add: k_def)
    define nd where "nd = N ! k"
    from k have dr: "drop k N = nd # drop (Suc k) N"
      by (simp add: nd_def Cons_nth_drop_Suc)
    from k N have ix: "index_at (nodes tpl) (node_pos tpl) = Returned nd"
      by (simp add: index_at_def nd_def)
    show ?thesis
    proof (cases "isEndNode nd names")
      case True
      with ix dr k N show ?thesis
        by (subst executeUntilLoop.simps) (simp add: k_def[symmetric])
    next
      case False
      obtain o1 e1 t1 c1 where ex: "execute X nd tpl ctx = ((o1, e1), t1, c1)"
        by (metis prod.exhaust)
      from execute_protocol[OF assms N ex] have t1: "nodes t1 = N" "node_pos tpl \<le> node_pos t1"
        by simp_all
      show ?thesis
      proof (cases e1)
        case (Some er)
        with False ix dr k N ex show ?thesis
          by (subst executeUntilLoop.simps) (cases o1; simp add: k_def[symmetric])
      next
        case None
        note e1 = this
        show ?thesis
        proof (cases o1)
          case None
          with e1 False ix dr k N ex show ?thesis
            by (subst executeUntilLoop.simps) (simp add: k_def[symmetric])
        next
          case (Some str)
          let ?t2 = "t1\<lparr>node_pos := node_pos t1 + 1\<rparr>"
          from t1 k have m: "length N - nat (node_pos ?t2) < length N - nat (node_pos tpl)"
            by simp
          from t1 p0 have "nodes ?t2 = N" "0 \<le> node_pos ?t2" by simp_all
          from less.hyps[OF m this]
          have ih: "executeUntilLoop X ?t2 c1 names (out @ [str]) =
              Some (runUntilAnyOf X names (drop (nat (node_pos ?t2)) N) ?t2 c1 (out @ [str]))" .
          from t1 k have "drop (nat (node_pos t1 - node_pos tpl)) (drop (Suc k) N) =
              drop (nat (node_pos ?t2)) N"
            by (simp add: nat_add_distrib nat_diff_distrib algebra_simps)
          with Some e1 False ix dr k N ex ih show ?thesis
            by (subst executeUntilLoop.simps) (simp add: k_def[symmetric])
        qed
      qed
    qed
  qed
qed

lemma runUntilAnyOf_shape:
  fixes tpl :: "('h, 'e, 'v) Template"
  assumes "cursorProtocol X N"
  shows "nodes tpl = N \<Longrightarrow> 0 \<le> node_pos tpl \<Longrightarrow>
         runUntilAnyOf X names (drop (nat (node_pos tpl)) N) tpl ctx out =
           Returned ((tn, outs, e), tpl', ctx') \<Longrightarrow>
         nodes tpl' = N \<and> node_pos tpl \<le> node_pos tpl' \<and>
         (case e of
            None \<Rightarrow> (\<exists>nd. tn = Some nd \<and> isEndNode nd names \<and>
                        index_at N (node_pos tpl') = Returned nd) \<and>
                    (\<exists>more. outs = Some (out @ more))
          | Some er \<Rightarrow> tn = None \<and> outs = None \<and>
                       (er = NoEndNode names \<longrightarrow> int (length N) \<le> node_pos tpl'))"
proof (induction "length N - nat (node_pos tpl)" arbitrary: tpl ctx out rule: less_induct)
  case less
  note N = less.prems(1) and p0 = less.prems(2) and run = less.prems(3)
  show ?case
  proof (cases "node_pos tpl < int (length N)")
    case False
    with N p0 run show ?thesis by auto
  next
    case True
    define k where "k = nat (node_pos tpl)"
    from True p0 have k: "k < length N" "node_pos tpl = int k" by (simp_all add: k_def)
    define nd where "nd = N ! k"
    from k have dr: "drop k N = nd # drop (Suc k) N"
      by (simp add: nd_def Cons_nth_drop_Suc)
    from k N have ix: "index_at N (node_pos tpl) = Returned nd"
      by (simp add: index_at_def nd_def)
    from run dr have run': "runUntilAnyOf X names (nd # drop (Suc k) N) tpl ctx out =
           Returned ((tn, outs, e), tpl', ctx')"
      by (simp add: k_def)
    show ?thesis
    proof (cases "isEndNode nd names")
      case True
      with run' ix N show ?thesis by auto
    next
      case False
      obtain o1 e1 t1 c1 where ex: "execute X nd tpl ctx = ((o1, e1), t1, c1)"
        by (metis prod.exhaust)
      from execute_protocol[OF assms N ex] have t1: "nodes t1 = N" "node_pos tpl \<le> node_pos t1"
        by simp_all
      show ?thesis
      proof (cases e1)
        case (Some er)
        with False run' ex t1 show ?thesis by (cases o1) auto
      next
        case None
        note e1 = this
        show ?thesis
        proof (cases o1)
          case None
          with e1 False run' ex show ?thesis by simp
        next
          case (Some str)
          let ?t2 = "t1\<lparr>node_pos := node_pos t1 + 1\<rparr>"
          from t1 k have m: "length N - nat (node_pos ?t2) < length N - nat (node_pos tpl)"
            by simp
          from t1 p0 have a: "nodes ?t2 = N" "0 \<le> node_pos ?t2" by simp_all
          from t1 k have "drop (nat (node_pos t1 - node_pos tpl)) (drop (Suc k) N) =
              drop (nat (node_pos ?t2)) N"
            by (simp add: nat_add_distrib nat_diff_distrib algebra_simps)
          with Some e1 False run' ex
          have "runUntilAnyOf X names (drop (nat (node_pos ?t2)) N) ?t2 c1 (out @ [str]) =
              Returned ((tn, outs, e), tpl', ctx')"
            by simp
          from less.hyps[OF m a this] t1 show ?thesis
            by (auto split: option.splits)
        qed
      qed
    qed
  qed
qed

lemma runUntilAnyOf_literals:
  assumes "\<forall>nd\<in>set pre. nd = ContentNode (getLine nd) (getCol nd) (getContent nd)"
    and "isEndNode stop names"
  shows "runUntilAnyOf X names (pre @ stop # post) tpl ctx out =
           Returned ((Some stop, Some (out @ map getContent pre), None),
                     tpl\<lparr>node_pos := node_pos tpl + int (length pre)\<rparr>, ctx)"
  using assms(1)
proof (induction pre arbitrary: tpl out)
  case Nil
  with assms(2) show ?case by simp
next
  case (Cons nd pre)
  from Cons.prems obtain l c s where nd: "nd = ContentNode l c s" by auto
  then have ne: "\<not> isEndNode nd names" by (simp add: isEndNode_def)
  from Cons.prems have "\<forall>nd\<in>set pre. nd = ContentNode (getLine nd) (getCol nd) (getContent nd)"
    by simp
  from Cons.IH[OF this, of "tpl\<lparr>node_pos := node_pos tpl + 1\<rparr>" "out @ [s]"] ne nd
  show ?case by (simp add: add.assoc)
qed

lemma notifyIgnore_protocol:
  fixes X :: "('h, 'e, 'v) externals"
  assumes "hookProtocol (tagIgnore X) N" "nodes tpl = N"
  shows "nodes (notifyIgnore X nd tpl) = N \<and> node_pos tpl \<le> node_pos (notifyIgnore X nd tpl)"
proof (cases nd)
  case (TagNode l c s tn ta th)
  show ?thesis
  proof (cases th)
    case None
    with assms TagNode show ?thesis by (simp add: notifyIgnore_def)
  next
    case (Some h)
    show ?thesis
    proof (cases "tagIgnore X h")
      case None
      with assms TagNode Some show ?thesis by (simp add: notifyIgnore_def)
    next
      case (Some hook)
      with assms(1)[unfolded hookProtocol_def, rule_format, of h hook tpl ta] assms(2)
        TagNode \<open>th = Some h\<close>
      show ?thesis by (simp add: notifyIgnore_def)
    qed
  qed
qed (use assms in \<open>simp_all add: notifyIgnore_def\<close>)

lemma skipUntilAnyOf_step:
  fixes X :: "('h, 'e, 'v) externals"
  shows "\<not> isEndNode nd names \<Longrightarrow>
     skipUntilAnyOf (tagIgnore X) names (nd # rest) tpl =
       skipUntilAnyOf (tagIgnore X) names
         (drop (nat (node_pos (notifyIgnore X nd tpl) - node_pos tpl)) rest)
         ((notifyIgnore X nd tpl)\<lparr>node_pos := node_pos (notifyIgnore X nd tpl) + 1\<rparr>)"
  by (simp add: notifyIgnore_def Let_def)

lemma ignoreUntilLoop_refines:
  fixes tpl :: "('h, 'e, 'v) Template"
  assumes "hookProtocol (tagIgnore X) N"
  shows "nodes tpl = N \<Longrightarrow> 0 \<le> node_pos tpl \<Longrightarrow>
         ignoreUntilLoop X tpl names =
           Some (Returned (skipUntilAnyOf (tagIgnore X) names (drop (nat (node_pos tpl)) N) tpl))"
proof (induction "length N - nat (node_pos tpl)" arbitrary: tpl rule: less_induct)
  case less
  note N = less.prems(1) and p0 = less.prems(2)
  show ?case
  proof (cases "node_pos tpl < int (length N)")
    case False
    with N p0 show ?thesis
      by (subst ignoreUntilLoop.simps) simp
  next
    case True
    define k where "k = nat (node_pos tpl)"
    from True p0 have k: "k < length N" "node_pos tpl = int k" by (simp_all add: k_def)
    define nd where "nd = N ! k"
    from k have dr: "drop k N = nd # drop (Suc k) N"
      by (simp add: nd_def Cons_nth_drop_Suc)
    from k N have ix: "index_at (nodes tpl) (node_pos tpl) = Returned nd"
      by (simp add: index_at_def nd_def)
    show ?thesis
    proof (cases "isEndNode nd names")
      case True
      with ix dr k N show ?thesis
        by (subst ignoreUntilLoop.simps) (simp add: k_def[symmetric])
    next
      case False
      define t1 where "t1 = notifyIgnore X nd tpl"
      from notifyIgnore_protocol[OF assms N, of nd]
      have t1: "nodes t1 = N" "node_pos tpl \<le> node_pos t1" by (simp_all add: t1_def)
      let ?t2 = "t1\<lparr>node_pos := node_pos t1 + 1\<rparr>"
      from t1 k have m: "length N - nat (node_pos ?t2) < length N - nat (node_pos tpl)"
        by simp
      from t1 p0 have "nodes ?t2 = N" "0 \<le> node_pos ?t2" by simp_all
      from less.hyps[OF m this]
      have ih: "ignoreUntilLoop X ?t2 names =
          Some (Returned (skipUntilAnyOf (tagIgnore X) names (drop (nat (node_pos ?t2)) N) ?t2))" .
      from t1 k have d: "drop (nat (node_pos t1 - node_pos tpl)) (drop (Suc k) N) =
          drop (nat (node_pos ?t2)) N"
        by (simp add: nat_add_distrib nat_diff_distrib algebra_simps)
      have "skipUntilAnyOf (tagIgnore X) names (drop (nat (node_pos tpl)) N) tpl =
          skipUntilAnyOf (tagIgnore X) names (drop (nat (node_pos ?t2)) N) ?t2"
        using skipUntilAnyOf_step[OF False, of X "drop (Suc k) N" tpl] dr d
        by (simp add: k_def[symmetric] t1_def)
      with False ix True ih N show ?thesis
        by (subst ignoreUntilLoop.simps) (simp add: t1_def Let_def)
    qed
  qed
qed

lemma skipUntilAnyOf_shape:
  fixes tpl :: "('h, 'e, 'v) Template" and X :: "('h, 'e, 'v) externals"
  assumes "hookProtocol (tagIgnore X) N"
  shows "nodes tpl = N \<Longrightarrow> 0 \<le> node_pos tpl \<Longrightarrow>
         skipUntilAnyOf (tagIgnore X) names (drop (nat (node_pos tpl)) N) tpl = ((tn, e), tpl') \<Longrightarrow>
         nodes tpl' = N \<and> node_pos tpl \<le> node_pos tpl' \<and>
         (case e of
            None \<Rightarrow> (\<exists>nd. tn = Some nd \<and> isEndNode nd names \<and>
                        index_at N (node_pos tpl') = Returned nd)
          | Some er \<Rightarrow> tn = None \<and> er = NoEndNode names \<and> int (length N) \<le> node_pos tpl')"
proof (induction "length N - nat (node_pos tpl)" arbitrary: tpl rule: less_induct)
  case less
  note N = less.prems(1) and p0 = less.prems(2) and run = less.prems(3)
  show ?case
  proof (cases "node_pos tpl < int (length N)")
    case False
    with N p0 run show ?thesis by auto
  next
    case True
    define k where "k = nat (node_pos tpl)"
    from True p0 have k: "k < length N" "node_pos tpl = int k" by (simp_all add: k_def)
    define nd where "nd = N ! k"
    from k have dr: "drop k N = nd # drop (Suc k) N"
      by (simp add: nd_def Cons_nth_drop_Suc)
    from k N have ix: "index_at N (node_pos tpl) = Returned nd"
      by (simp add: index_at_def nd_def)
    from run dr have run': "skipUntilAnyOf (tagIgnore X) names (nd # drop (Suc k) N) tpl =
        ((tn, e), tpl')"
      by (simp add: k_def)
    show ?thesis
    proof (cases "isEndNode nd names")
      case True
      with run' ix N show ?thesis by auto
    next
      case False
      define t1 where "t1 = notifyIgnore X nd tpl"
      from notifyIgnore_protocol[OF assms N, of nd]
      have t1: "nodes t1 = N" "node_pos tpl \<le> node_pos t1" by (simp_all add: t1_def)
      let ?t2 = "t1\<lparr>node_pos := node_pos t1 + 1\<rparr>"
      from t1 k have m: "length N - nat (node_pos ?t2) < length N - nat (node_pos tpl)"
        by simp
      from t1 p0 have a: "nodes ?t2 = N" "0 \<le> node_pos ?t2" by simp_all
      from t1 k have d: "drop (nat (node_pos t1 - node_pos tpl)) (drop (Suc k) N) =
          drop (nat (node_pos ?t2)) N"
        by (simp add: nat_add_distrib nat_diff_distrib algebra_simps)
      from run' skipUntilAnyOf_step[OF False, of X "drop (Suc k) N" tpl] d
      have "skipUntilAnyOf (tagIgnore X) names (drop (nat (node_pos ?t2)) N) ?t2 = ((tn, e), tpl')"
        by (simp add: t1_def)
      from less.hyps[OF m a this] t1 show ?thesis
        by (cases e) auto
    qed
  qed
qed

lemma skipUntilAnyOf_plain:
  fixes X :: "('h, 'e, 'v) externals"
  assumes "\<forall>nd\<in>set pre. \<not> isEndNode nd names \<and> (\<forall>t. notifyIgnore X nd t = t)"
    and "isEndNode stop names"
  shows "skipUntilAnyOf (tagIgnore X) names (pre @ stop # post) tpl =
           ((Some stop, None), tpl\<lparr>node_pos := node_pos tpl + int (length pre)\<rparr>)"
  using assms(1)
proof (induction pre arbitrary: tpl)
  case Nil
  with assms(2) show ?case by simp
next
  case (Cons nd pre)
  from Cons.prems have ne: "\<not> isEndNode nd names" and id: "notifyIgnore X nd tpl = tpl"
    and rest: "\<forall>nd\<in>set pre. \<not> isEndNode nd names \<and> (\<forall>t. notifyIgnore X nd t = t)"
    by simp_all
  from skipUntilAnyOf_step[OF ne, of X "pre @ stop # post" tpl] id
    Cons.IH[OF rest, of "tpl\<lparr>node_pos := node_pos tpl + 1\<rparr>"]
  show ?case by (simp add: add.assoc)
qed




section \<open>Construction and parsing of a template\<close>

text \<open>
  Claim C10.  For every template name and locator, constructing a template from the
  empty source string fails with the error ``Template has no content''; no template is
  returned, and nothing is parsed: the result does not depend on the collaborators.
\<close>

theorem FromString_empty_source:
  "newTemplate nm [] loc = (None, Some (Message ''Template has no content'')) \<and>
   FromString X nm [] loc = Returned (None, Some (Message ''Template has no content''))"
  by (simp add: newTemplate_def FromString_def)

text \<open>
  Claim C8.  Parsing is idempotent: when \<open>parse\<close> has succeeded on a template, a
  second call returns no error and leaves the whole template, node list included, as
  the first call left it.
\<close>

theorem parse_idempotent:
  assumes "parse X tpl = Returned (None, tpl')"
  shows "parse X tpl' = Returned (None, tpl')"
proof (cases "parsed tpl")
  case True
  with assms have "tpl' = tpl" by (simp add: parse_def)
  with True show ?thesis by (simp add: parse_def)
next
  case False
  with assms have "parsed tpl'"
    by (auto simp: parse_def split: outcome.splits prod.splits if_splits)
  then show ?thesis by (simp add: parse_def)
qed

theorem parse_idempotent_witness:
  "(case parse demoExternals (demoTemplate ''a{{ x }}'') of
      Returned (None, tpl') \<Rightarrow>
        nodes tpl' = [ContentNode 1 4 ''a'', FilterNode 1 7 ''x'' ''x|safe''] \<and>
        parse demoExternals tpl' = Returned (None, tpl')
    | _ \<Rightarrow> False)"
proof -
  have "(case parse demoExternals (demoTemplate ''a{{ x }}'') of
      Returned (None, tpl') \<Rightarrow>
        nodes tpl' = [ContentNode 1 4 ''a'', FilterNode 1 7 ''x'' ''x|safe'']
    | _ \<Rightarrow> False)"
    by code_simp
  then show ?thesis
    by (auto split: outcome.splits option.splits intro: parse_idempotent)
qed

section \<open>Executing a tag node\<close>

text \<open>
  Claim C6.  Executing a tag node whose handler is nil returns the error ``Unhandled
  placeholder'' and no output, and leaves template and context alone; a tag node with a
  handler returns what the handler returns for the argument text, the template and the
  context.  When the cursor of \<open>Execute\<close> stands on a tag node with a nil handler, the
  render fails with that error, annotated with the node's line, column and text.
\<close>

theorem tagNode_execute:
  "execute X (TagNode l c s tn ta None) tpl ctx =
     ((None, Some (UnhandledPlaceholder tn)), tpl, ctx) \<and>
   execute X (TagNode l c s tn ta (Some h)) tpl ctx = tagExecute X h ta tpl ctx \<and>
   (index_at (nodes tpl) (node_pos tpl) = Returned (TagNode l c s tn ta None) \<longrightarrow>
      Execute X tpl ctx =
        Some (Returned ((None, Some (ExecutionError (name tpl) l c s
                                       (UnhandledPlaceholder tn))), tpl, ctx)))"
proof -
  have "ExecuteLoop X tpl ctx' [] =
        Some (Returned ((None, Some (ExecutionError (name tpl) l c s
                                       (UnhandledPlaceholder tn))), tpl, ctx'))"
    if "index_at (nodes tpl) (node_pos tpl) = Returned (TagNode l c s tn ta None)" for ctx'
  proof -
    from that have "node_pos tpl < int (length (nodes tpl))"
      by (simp add: index_at_def split: if_splits)
    with that show ?thesis
      by (subst ExecuteLoop.simps) simp
  qed
  then show ?thesis by (simp add: Execute_def)
qed

theorem tagNode_execute_witness:
  "(case parse demoExternals (demoTemplate ''{% endif %}'') of
      Returned (None, tpl') \<Rightarrow>
        index_at (nodes tpl') (node_pos tpl') =
          Returned (TagNode 1 10 ''endif'' ''endif'' [] None) \<and>
        Execute demoExternals tpl' None =
          Some (Returned ((None, Some (ExecutionError ''demo'' 1 10 ''endif''
                                         (UnhandledPlaceholder ''endif''))), tpl', None))
    | _ \<Rightarrow> False)"
proof -
  have "(case parse demoExternals (demoTemplate ''{% endif %}'') of
      Returned (None, tpl') \<Rightarrow>
        index_at (nodes tpl') (node_pos tpl') =
          Returned (TagNode 1 10 ''endif'' ''endif'' [] None) \<and> name tpl' = ''demo''
    | _ \<Rightarrow> False)"
    by code_simp
  then show ?thesis
    using tagNode_execute[of demoExternals 1 10 "''endif''" "''endif''" "[]" _ None]
    by (auto split: outcome.splits option.splits)
qed

section \<open>The content state of the lexer\<close>



section \<open>Closing a filter region\<close>

text \<open>
  Claim C4, as amended.  The claim says that a filter region whose captured text is
  empty after trimming fails with ``Empty filter''.  The code tests the captured text
  before it trims it.  On a well-formed scanner state at the closer \<^verbatim>\<open>}}\<close>:
  \<^item> when no byte was captured, the lexer loop ends with the error text ``Empty
    filter'';
  \<^item> otherwise, also when only white space was captured, the trimmed text goes to the
    expression compiler: if the compiler rejects it the loop ends with the compiler's
    error text, and if it accepts it a filter node with the trimmed text is appended
    and the lexer returns to the content state.
\<close>

theorem filter_region_closed:
  fixes tpl :: "('h, 'e, 'v) Template"
  assumes "wellFormed tpl"
    and "getChar tpl 0 = Returned (Some (CHR ''}''))"
    and "getChar tpl 1 = Returned (Some (CHR ''}''))"
  shows "(length_tpl tpl = 0 \<longrightarrow>
            processFilter X tpl = Returned (None, tpl\<lparr>err := ''Empty filter''\<rparr>) \<and>
            runStates X ProcessFilter tpl = Returned (tpl\<lparr>err := ''Empty filter''\<rparr>)) \<and>
         (length_tpl tpl \<noteq> 0 \<longrightarrow>
            (case newExpr X (TrimSpace (captured tpl)) of
               Inl msg \<Rightarrow>
                 processFilter X tpl = Returned (None, tpl\<lparr>err := msg\<rparr>) \<and>
                 runStates X ProcessFilter tpl = Returned (tpl\<lparr>err := msg\<rparr>)
             | Inr ex \<Rightarrow>
                 (\<exists>b l c. processFilter X tpl =
                    Returned (Some ProcessContent,
                      tpl\<lparr>pos := pos tpl + 2, line := l, col := c, start := pos tpl + 2,
                          length_tpl := 0,
                          nodes := nodes tpl @
                            [FilterNode (line tpl) (col tpl) (TrimSpace (captured tpl))
                               (if autosafe tpl then addFilter X ex ''safe'' else ex)]\<rparr>))))"
proof (intro conjI impI)
  assume z: "length_tpl tpl = 0"
  with assms show pf: "processFilter X tpl = Returned (None, tpl\<lparr>err := ''Empty filter''\<rparr>)"
    by (simp add: processFilter_def Let_def addFilterNode_def)
  then show "runStates X ProcessFilter tpl = Returned (tpl\<lparr>err := ''Empty filter''\<rparr>)"
    by (subst runStates.simps) simp
next
  assume nz: "length_tpl tpl \<noteq> 0"
  show "case newExpr X (TrimSpace (captured tpl)) of
               Inl msg \<Rightarrow>
                 processFilter X tpl = Returned (None, tpl\<lparr>err := msg\<rparr>) \<and>
                 runStates X ProcessFilter tpl = Returned (tpl\<lparr>err := msg\<rparr>)
             | Inr ex \<Rightarrow>
                 (\<exists>b l c. processFilter X tpl =
                    Returned (Some ProcessContent,
                      tpl\<lparr>pos := pos tpl + 2, line := l, col := c, start := pos tpl + 2,
                          length_tpl := 0,
                          nodes := nodes tpl @
                            [FilterNode (line tpl) (col tpl) (TrimSpace (captured tpl))
                               (if autosafe tpl then addFilter X ex ''safe'' else ex)]\<rparr>))"
  proof (cases "newExpr X (TrimSpace (captured tpl))")
    case (Inl msg)
    with assms nz have "processFilter X tpl = Returned (None, tpl\<lparr>err := msg\<rparr>)"
      by (simp add: processFilter_def Let_def addFilterNode_def slice_wf captured_def)
    moreover from this have "runStates X ProcessFilter tpl = Returned (tpl\<lparr>err := msg\<rparr>)"
      by (subst runStates.simps) simp
    ultimately show ?thesis using Inl by simp
  next
    case (Inr ex)
    let ?t1 = "tpl\<lparr>start := pos tpl, length_tpl := 0,
                   nodes := nodes tpl @
                     [FilterNode (line tpl) (col tpl) (TrimSpace (captured tpl))
                        (if autosafe tpl then addFilter X ex ''safe'' else ex)]\<rparr>"
    from assms nz Inr have a: "addFilterNode X tpl = Returned (None, ?t1)"
      by (simp add: addFilterNode_def Let_def slice_wf captured_def)
    from assms have lt: "pos tpl + 1 < rawLen tpl"
      by (auto simp: getChar_wf split: if_splits)
    with assms(1) have "\<exists>b l c. fastForward ?t1 2 =
           Returned (b, ?t1\<lparr>pos := pos ?t1 + int 2, line := l, col := c\<rparr>)"
      by (intro fastForward_pos) (auto simp: wellFormed_def)
    then obtain b l c where
      "fastForward ?t1 2 = Returned (b, ?t1\<lparr>pos := pos tpl + 2, line := l, col := c\<rparr>)"
      by auto
    with assms a have "processFilter X tpl =
        Returned (Some ProcessContent,
          tpl\<lparr>pos := pos tpl + 2, line := l, col := c, start := pos tpl + 2,
              length_tpl := 0,
              nodes := nodes tpl @
                [FilterNode (line tpl) (col tpl) (TrimSpace (captured tpl))
                   (if autosafe tpl then addFilter X ex ''safe'' else ex)]\<rparr>)"
      by (simp add: processFilter_def Let_def)
    with Inr show ?thesis by auto
  qed
qed

theorem filter_region_closed_witness:
  "wellFormed ((demoTemplate ''{{}}'')\<lparr>pos := 2, start := 2, col := 3\<rparr>) \<and>
   runStates demoExternals ProcessFilter ((demoTemplate ''{{}}'')\<lparr>pos := 2, start := 2, col := 3\<rparr>)
     = Returned ((demoTemplate ''{{}}'')\<lparr>pos := 2, start := 2, col := 3, err := ''Empty filter''\<rparr>) \<and>
   wellFormed ((demoTemplate ''{{ }}'')\<lparr>pos := 3, start := 2, length_tpl := 1, col := 4\<rparr>) \<and>
   runStates demoExternals ProcessFilter
       ((demoTemplate ''{{ }}'')\<lparr>pos := 3, start := 2, length_tpl := 1, col := 4\<rparr>)
     = Returned ((demoTemplate ''{{ }}'')\<lparr>pos := 3, start := 2, length_tpl := 1, col := 4,
                                            err := ''Empty expression''\<rparr>)"
proof -
  let ?T1 = "(demoTemplate ''{{}}'')\<lparr>pos := 2, start := 2, col := 3\<rparr>"
  let ?T2 = "(demoTemplate ''{{ }}'')\<lparr>pos := 3, start := 2, length_tpl := 1, col := 4\<rparr>"
  have w1: "wellFormed ?T1" and w2: "wellFormed ?T2"
    by (simp_all add: wellFormed_def demoTemplate_def)
  have g1: "getChar ?T1 0 = Returned (Some (CHR ''}''))"
    "getChar ?T1 1 = Returned (Some (CHR ''}''))"
    and g2: "getChar ?T2 0 = Returned (Some (CHR ''}''))"
    "getChar ?T2 1 = Returned (Some (CHR ''}''))"
    by (simp_all add: getChar_def hasReachedEnd_def index_at_def demoTemplate_def)
  have l1: "length_tpl ?T1 = 0" and l2: "length_tpl ?T2 \<noteq> 0"
    by (simp_all add: demoTemplate_def)
  have "TrimSpace (captured ?T2) = []" by code_simp
  then have n2: "newExpr demoExternals (TrimSpace (captured ?T2)) = Inl ''Empty expression''"
    by (simp add: demoExternals_def)
  from filter_region_closed[OF w1 g1, of demoExternals] l1
  have "runStates demoExternals ProcessFilter ?T1 = Returned (?T1\<lparr>err := ''Empty filter''\<rparr>)"
    by blast
  moreover from filter_region_closed[OF w2 g2, of demoExternals] l2 n2
  have "runStates demoExternals ProcessFilter ?T2 = Returned (?T2\<lparr>err := ''Empty expression''\<rparr>)"
    by simp
  ultimately show ?thesis using w1 w2 by simp
qed

text \<open>The source \<^verbatim>\<open>{{ }}\<close>: with a compiler that rejects the empty text the parse error
  is the compiler's, and with a compiler that accepts every text parsing succeeds with
  a filter node of empty text.\<close>

theorem filter_region_closed_counterexample:
  "fst (result (parse demoExternals (demoTemplate ''{{ }}''))) =
     Some (ParsingError ''demo'' 1 4 ''Empty expression'') \<and>
   fst (result (parse (demoExternals\<lparr>newExpr := Inr\<rparr>) (demoTemplate ''{{ }}''))) = None \<and>
   nodes (snd (result (parse (demoExternals\<lparr>newExpr := Inr\<rparr>) (demoTemplate ''{{ }}'')))) =
     [FilterNode 1 4 [] ''|safe'']"
  by code_simp

section \<open>Construction of a tag node\<close>

text \<open>
  Claim C5, as amended.  The claim says that the captured text is split on the first
  white-space run.  The code splits at the first space byte only.  On a well-formed
  scanner state, \<open>addTagNode\<close> fails with ``Empty tag'' when no byte was captured;
  otherwise it trims the captured text, takes the bytes before the first space byte
  (all of them when there is none) as the tag name and the trimmed rest behind that
  space byte (empty when there is none) as the argument text, looks the name up in the
  tag registry, fails with ``Tag '...' does not exist'' when the name is absent, and
  otherwise appends a tag node with the trimmed text, the name, the argument text and
  the registered handler.
\<close>

theorem addTagNode_construction:
  fixes tpl :: "('h, 'e, 'v) Template"
  assumes "wellFormed tpl"
  shows "addTagNode X tpl =
     (if length_tpl tpl = 0 then Returned (Some ''Empty tag'', tpl)
      else let content = TrimSpace (captured tpl);
               tn = takeWhile (\<lambda>c. c \<noteq> CHR 0x20) content;
               ta = TrimSpace (drop (Suc (length tn)) content)
           in case Tags X tn of
                None \<Rightarrow>
                  Returned (Some (''Tag '' @ [CHR 0x27] @ tn @ [CHR 0x27]
                                    @ '' does not exist''), tpl)
              | Some th \<Rightarrow>
                  Returned (None,
                    tpl\<lparr>start := pos tpl, length_tpl := 0,
                        nodes := nodes tpl @
                          [TagNode (line tpl) (col tpl) content tn ta th]\<rparr>))"
proof (cases "length_tpl tpl = 0")
  case True
  then show ?thesis by (simp add: addTagNode_def)
next
  case False
  note nz = this
  show ?thesis
  proof (cases "CHR 0x20 \<in> set (TrimSpace (captured tpl))")
    case True
    with assms nz show ?thesis
      by (simp add: addTagNode_def Let_def slice_wf captured_def SplitN2_space
          split: option.splits)
  next
    case False
    with assms nz show ?thesis
      by (simp add: addTagNode_def Let_def slice_wf captured_def SplitN2_no_space
          takeWhile_no_space TrimSpace_Nil split: option.splits)
  qed
qed

theorem addTagNode_construction_witness:
  "wellFormed ((demoTemplate ''{% if  a b %}'')
      \<lparr>pos := 11, start := 2, length_tpl := 9, col := 12\<rparr>) \<and>
   addTagNode demoExternals ((demoTemplate ''{% if  a b %}'')
      \<lparr>pos := 11, start := 2, length_tpl := 9, col := 12\<rparr>) =
     Returned (None, (demoTemplate ''{% if  a b %}'')
       \<lparr>pos := 11, start := 11, length_tpl := 0, col := 12,
        nodes := [TagNode 1 12 ''if  a b'' ''if'' ''a b'' (Some 0)]\<rparr>)"
proof -
  let ?T = "(demoTemplate ''{% if  a b %}'')\<lparr>pos := 11, start := 2, length_tpl := 9, col := 12\<rparr>"
  have w: "wellFormed ?T" by (simp add: wellFormed_def demoTemplate_def)
  have c: "TrimSpace (captured ?T) = ''if  a b''" by code_simp
  have a: "TrimSpace (drop (Suc (length ''if'')) ''if  a b'') = ''a b''" by code_simp
  have t: "Tags demoExternals ''if'' = Some (Some 0)" by (simp add: demoExternals_def)
  have f: "line ?T = 1" "col ?T = 12" "pos ?T = 11" "nodes ?T = []" "length_tpl ?T \<noteq> 0"
    by (simp_all add: demoTemplate_def)
  from addTagNode_construction[OF w, of demoExternals] c a t f w show ?thesis
    by (simp add: Let_def)
qed

text \<open>A tab between name and arguments does not split: \<^verbatim>\<open>{% if<TAB>x %}\<close> fails
  although \<open>if\<close> is registered.\<close>

theorem addTagNode_construction_counterexample:
  "fst (result (parse demoExternals (demoTemplate (''{% if'' @ [CHR 0x09] @ ''x %}'')))) =
     Some (ParsingError ''demo'' 1 9
             (''Tag '' @ [CHR 0x27] @ ''if'' @ [CHR 0x09] @ ''x'' @ [CHR 0x27]
                @ '' does not exist'')) \<and>
   Tags demoExternals ''if'' = Some (Some 0)"
  by code_simp

section \<open>Line and column of an error\<close>

text \<open>
  Claim C3, as amended.  The claim says that the line and column of a reported error
  are those of the first byte of the offending construct.  The code keeps no such
  position: it reports where the scanner stands.  For a template built by
  \<open>newTemplate\<close>, \<open>parse\<close> returns, and
  \<^item> a parse error carries the tracked line and column of the scanner offset at which
    the error was detected (of the last source byte when the input is exhausted);
  \<^item> the source is cut, from offset 0 on, into a chain of segments, which the source
    determines, and the node list holds in order the node of every segment that is no
    comment: each node carries the text of its own segment and the tracked line and
    column of the offset at which it was emitted, which is the first byte of the closing
    delimiter of its own region for a filter or tag node, and the end of the input or
    the offset two bytes behind the \<^verbatim>\<open>{\<close> that ends its literal for a content node;
  \<^item> when the node under the cursor fails, \<open>Execute\<close>, called with a context, reports
    the error of that node with the line, column and text of that node;
  \<^item> an error reported by \<open>Execute\<close>, and an error reported by
    \<open>executeUntilAnyTagNode\<close> other than ``no end-node found'', which has no position,
    wraps the error that executing the node under the cursor
    returned, with the line, column and text of that node; the template returned is the
    one that this execution left, so the node is the one under the cursor of the
    returned template unless it is a tag with a handler; with handlers that keep the
    node list, and on a template with the parsed node list, it is the node of the parsed
    list at that cursor, with the position of its own segment.
\<close>

theorem error_position:
  fixes tpl :: "('h, 'e, 'v) Template" and X :: "('h, 'e, 'v) externals"
  assumes "newTemplate nm src loc = (Some tpl, None)"
  shows "\<exists>r T gs.
           parse X tpl = Returned (r, T) \<and>
           pos T \<in> {0..int (length src)} \<and>
           (r = None \<or>
            r = Some (ParsingError nm (lineAt src (pos T)) (colAt src (pos T)) (err T))) \<and>
           (\<exists>m\<in>{0..int (length src)}. segments src gs 0 m) \<and>
           (\<forall>gs' m'. segments src gs' 0 m' \<and> length gs' \<le> length gs \<longrightarrow>
              take (length gs') gs = gs') \<and>
           nodesAt src gs (nodes T) \<and>
           (\<forall>s c nd o1 e1 s' c'.
              c \<noteq> None \<and> index_at (nodes s) (node_pos s) = Returned nd \<and>
              execute X nd s c = ((o1, Some e1), s', c') \<longrightarrow>
              Execute X s c =
                Some (Returned ((None, Some (ExecutionError (name s') (getLine nd) (getCol nd)
                                               (getContent nd) e1)), s', c'))) \<and>
           (\<forall>t ctx out e T' ctx'.
              Execute X t ctx = Some (Returned ((out, Some e), T', ctx')) \<longrightarrow>
              (\<exists>s c nd o1 e1 c1.
                 index_at (nodes s) (node_pos s) = Returned nd \<and>
                 execute X nd s c = ((o1, Some e1), T', c1) \<and>
                 e = ExecutionError (name T') (getLine nd) (getCol nd) (getContent nd) e1 \<and>
                 (\<not> handled nd \<longrightarrow> s = T') \<and>
                 (keepsNodes X \<and> nodes t = nodes T \<longrightarrow>
                    nodes s = nodes T \<and>
                    nodeAt src (filter rendersNode gs ! nat (node_pos s)) nd))) \<and>
           (\<forall>t ctx names nd0 out e T' ctx'.
              executeUntilAnyTagNode X t ctx names =
                Some (Returned ((nd0, out, Some e), T', ctx')) \<longrightarrow>
              e = NoEndNode names \<or>
              (\<exists>s c nd o1 e1.
                 index_at (nodes s) (node_pos s) = Returned nd \<and>
                 execute X nd s c = ((o1, Some e1), T', ctx') \<and>
                 e = BlockExecutionError (name T') (getLine nd) (getCol nd) (getContent nd) e1 \<and>
                 (\<not> handled nd \<longrightarrow> s = T') \<and>
                 (keepsNodes X \<and> nodes t = nodes T \<longrightarrow>
                    nodes s = nodes T \<and>
                    nodeAt src (filter rendersNode gs ! nat (node_pos s)) nd)))"
proof -
  from parse_fresh[OF assms, of X] obtain t2 gs where
    t2: "scanInv t2" "raw t2 = src" "name t2 = nm" "scannedTo None t2 gs"
      "parse X tpl =
         (if err t2 = [] then Returned (None, t2\<lparr>parsed := True\<rparr>)
          else Returned (Some (ParsingError nm (line t2) (col t2) (err t2)), t2))"
    by blast
  define t3 where "t3 = (if err t2 = [] then t2\<lparr>parsed := True\<rparr> else t2)"
  define r where "r = (if err t2 = [] then None
                       else Some (ParsingError nm (line t2) (col t2) (err t2)))"
  from t2 have p: "parse X tpl = Returned (r, t3)" by (simp add: r_def t3_def)
  from t2 have a: "pos t3 \<in> {0..int (length src)}"
    by (auto simp: t3_def scanInv_def wellFormed_def)
  from t2 have b: "r = None \<or>
      r = Some (ParsingError nm (lineAt src (pos t3)) (colAt src (pos t3)) (err t3))"
    by (auto simp: t3_def r_def scanInv_def tracked_def)
  from t2 have c: "\<exists>m\<in>{0..int (length src)}. segments src gs 0 m"
    and n: "nodesAt src gs (nodes t3)"
    by (auto simp: t3_def scannedTo_def)
  have f: "Execute X s c =
             Some (Returned ((None, Some (ExecutionError (name s') (getLine nd) (getCol nd)
                                            (getContent nd) e1)), s', c'))"
    if "c \<noteq> None \<and> index_at (nodes s) (node_pos s) = Returned nd \<and>
        execute X nd s c = ((o1, Some e1), s', c')"
    for s c and nd :: "('h, 'e) node" and o1 e1 s' c'
    using that Execute_failing_node[of s nd X c o1 e1 s' c'] by blast
  have d: "\<exists>s c nd o1 e1 c1.
             index_at (nodes s) (node_pos s) = Returned nd \<and>
             execute X nd s c = ((o1, Some e1), t4, c1) \<and>
             e = ExecutionError (name t4) (getLine nd) (getCol nd) (getContent nd) e1 \<and>
             (\<not> handled nd \<longrightarrow> s = t4) \<and>
             (keepsNodes X \<and> nodes t = nodes t3 \<longrightarrow>
                nodes s = nodes t3 \<and>
                nodeAt src (filter rendersNode gs ! nat (node_pos s)) nd)"
    if ex: "Execute X t ctx = Some (Returned ((out, Some e), t4, c4))"
    for t ctx out e t4 c4
  proof -
    from ex obtain c0 c5 where "ExecuteLoop X t c0 [] = Some (Returned ((out, Some e), t4, c5))"
      by (auto simp: Execute_def split: if_splits option.splits outcome.splits)
    from ExecuteLoop_failing[OF this refl] obtain s c nd o1 e1 where
      s: "index_at (nodes s) (node_pos s) = Returned nd"
        "execute X nd s c = ((o1, Some e1), t4, c5)"
        "e = ExecutionError (name t4) (getLine nd) (getCol nd) (getContent nd) e1"
        "keepsNodes X \<longrightarrow> nodes s = nodes t"
      by blast
    have "s = t4" if "\<not> handled nd"
      using execute_plain[OF that s(2)] by simp
    moreover have "nodes s = nodes t3 \<and> nodeAt src (filter rendersNode gs ! nat (node_pos s)) nd"
      if "keepsNodes X \<and> nodes t = nodes t3"
      using nodesAt_nth[OF n, of "node_pos s" nd] s(1,4) that by simp
    ultimately show ?thesis using s(1-3) by blast
  qed
  have u: "e = NoEndNode names \<or>
           (\<exists>s c nd o1 e1.
             index_at (nodes s) (node_pos s) = Returned nd \<and>
             execute X nd s c = ((o1, Some e1), t4, c4) \<and>
             e = BlockExecutionError (name t4) (getLine nd) (getCol nd) (getContent nd) e1 \<and>
             (\<not> handled nd \<longrightarrow> s = t4) \<and>
             (keepsNodes X \<and> nodes t = nodes t3 \<longrightarrow>
                nodes s = nodes t3 \<and>
                nodeAt src (filter rendersNode gs ! nat (node_pos s)) nd))"
    if ex: "executeUntilAnyTagNode X t ctx names =
              Some (Returned ((nd0, out, Some e), t4, c4))"
    for t ctx names nd0 out e t4 c4
  proof (cases "e = NoEndNode names")
    case True
    then show ?thesis by simp
  next
    case False
    from ex have "executeUntilLoop X (t\<lparr>node_pos := node_pos t + 1\<rparr>) ctx names [] =
        Some (Returned ((nd0, out, Some e), t4, c4))"
      by (auto simp: executeUntilAnyTagNode_def split: if_splits)
    from executeUntilLoop_failing[OF this refl] False obtain s c nd o1 e1 where
      s: "index_at (nodes s) (node_pos s) = Returned nd"
        "execute X nd s c = ((o1, Some e1), t4, c4)"
        "e = BlockExecutionError (name t4) (getLine nd) (getCol nd) (getContent nd) e1"
        "keepsNodes X \<longrightarrow> nodes s = nodes (t\<lparr>node_pos := node_pos t + 1\<rparr>)"
      by blast
    have "s = t4" if "\<not> handled nd"
      using execute_plain[OF that s(2)] by simp
    moreover have "nodes s = nodes t3 \<and> nodeAt src (filter rendersNode gs ! nat (node_pos s)) nd"
      if "keepsNodes X \<and> nodes t = nodes t3"
      using nodesAt_nth[OF n, of "node_pos s" nd] s(1,4) that by simp
    ultimately show ?thesis using s(1-3) by blast
  qed
  show ?thesis
    apply (intro exI[of _ r] exI[of _ t3] exI[of _ gs] conjI)
    subgoal by (rule p)
    subgoal by (rule a)
    subgoal by (rule b)
    subgoal by (rule c)
    subgoal using c by (blast intro: segments_prefix)
    subgoal by (rule n)
    subgoal using f by blast
    subgoal using d by blast
    subgoal using u by blast
    done
qed


theorem error_position_witness:
  "newTemplate ''demo'' ''ab{{ x }}'' None = (Some (demoTemplate ''ab{{ x }}''), None) \<and>
   keepsNodes failingExternals \<and>
   fst (result (parse failingExternals (demoTemplate ''ab{{ x }}''))) = None \<and>
   nodes (snd (result (parse failingExternals (demoTemplate ''ab{{ x }}'')))) =
     [ContentNode 1 5 ''ab'', FilterNode 1 8 ''x'' ''x|safe''] \<and>
   segments ''ab{{ x }}'' [LiteralSeg 0 2, FilterSeg 2 9] 0 9 \<and>
   fst (result (the (Execute failingExternals
          (snd (result (parse failingExternals (demoTemplate ''ab{{ x }}'')))) None))) =
     (None, Some (ExecutionError ''demo'' (lineAt ''ab{{ x }}'' 7) (colAt ''ab{{ x }}'' 7) ''x''
                    (Message ''evaluation failed''))) \<and>
   fst (result (the (executeUntilAnyTagNode failingExternals
          (snd (result (parse failingExternals (demoTemplate ''ab{{ x }}'')))) None
          [''endif'']))) =
     (None, None,
      Some (BlockExecutionError ''demo'' (lineAt ''ab{{ x }}'' 7) (colAt ''ab{{ x }}'' 7) ''x''
              (Message ''evaluation failed''))) \<and>
   fst (result (the (Execute failingExternals
          ((snd (result (parse failingExternals (demoTemplate ''ab{{ x }}''))))
             \<lparr>node_pos := 1\<rparr>) (Some Map.empty)))) =
     (None, Some (ExecutionError ''demo'' 1 8 ''x'' (Message ''evaluation failed''))) \<and>
   (lineAt ''ab{{ x }}'' 7, colAt ''ab{{ x }}'' 7) = (1, 8)"
proof -
  define src where "src = ''ab{{ x }}''"
  define T0 where "T0 = snd (result (parse failingExternals (demoTemplate src)))"
  define fnd :: "(nat, string) node" where "fnd = FilterNode 1 8 ''x'' ''x|safe''"
  have h: "newTemplate ''demo'' src None = (Some (demoTemplate src), None)"
    by (simp add: newTemplate_def demoTemplate_def src_def)
  have k: "keepsNodes failingExternals"
    by (simp add: keepsNodes_def failingExternals_def demoExternals_def)
  have sg: "segments src [LiteralSeg 0 2, FilterSeg 2 9] 0 9"
    unfolding src_def by code_simp
  have lc: "(lineAt src 7, colAt src 7) = (1, 8)"
    unfolding src_def by code_simp
  have p: "fst (result (parse failingExternals (demoTemplate src))) = None"
    "nodes T0 = [ContentNode 1 5 ''ab'', fnd]" "name T0 = ''demo''"
    unfolding src_def T0_def fnd_def by code_simp+
  have "(case Execute failingExternals T0 None of
           Some (Returned r) \<Rightarrow>
             fst (fst r) = None \<and> snd (fst r) \<noteq> None \<and> node_pos (fst (snd r)) = 1 \<and>
             name (fst (snd r)) = ''demo''
         | _ \<Rightarrow> False)"
    unfolding src_def T0_def by code_simp
  then obtain e T' c' where
    ex: "Execute failingExternals T0 None = Some (Returned ((None, Some e), T', c'))"
    and np: "node_pos T' = 1" and nm: "name T' = ''demo''"
    by (cases "Execute failingExternals T0 None")
       (auto split: outcome.splits)
  have "(case executeUntilAnyTagNode failingExternals T0 None [''endif''] of
           Some (Returned r) \<Rightarrow>
             fst (fst r) = None \<and> fst (snd (fst r)) = None \<and> snd (snd (fst r)) \<noteq> None \<and>
             snd (snd (fst r)) \<noteq> Some (NoEndNode [''endif'']) \<and>
             node_pos (fst (snd r)) = 1 \<and> name (fst (snd r)) = ''demo''
         | _ \<Rightarrow> False)"
    unfolding src_def T0_def by code_simp
  then obtain e2 T2 c2 where
    bx: "executeUntilAnyTagNode failingExternals T0 None [''endif''] =
           Some (Returned ((None, None, Some e2), T2, c2))"
    and ne: "e2 \<noteq> NoEndNode [''endif'']"
    and np2: "node_pos T2 = 1" and nm2: "name T2 = ''demo''"
    by (cases "executeUntilAnyTagNode failingExternals T0 None [''endif'']")
       (auto split: outcome.splits)
  from error_position[OF h, of failingExternals] obtain r T gs where
    t: "parse failingExternals (demoTemplate src) = Returned (r, T)"
    and u: "\<forall>gs' m'. segments src gs' 0 m' \<and> length gs' \<le> length gs \<longrightarrow>
              take (length gs') gs = gs'"
    and n: "nodesAt src gs (nodes T)"
    and f: "\<forall>s c nd o1 e1 s' c'.
              c \<noteq> None \<and> index_at (nodes s) (node_pos s) = Returned nd \<and>
              execute failingExternals nd s c = ((o1, Some e1), s', c') \<longrightarrow>
              Execute failingExternals s c =
                Some (Returned ((None, Some (ExecutionError (name s') (getLine nd) (getCol nd)
                                               (getContent nd) e1)), s', c'))"
    and d: "\<forall>t ctx out e T' ctx'.
              Execute failingExternals t ctx = Some (Returned ((out, Some e), T', ctx')) \<longrightarrow>
              (\<exists>s c nd o1 e1 c1.
                 index_at (nodes s) (node_pos s) = Returned nd \<and>
                 execute failingExternals nd s c = ((o1, Some e1), T', c1) \<and>
                 e = ExecutionError (name T') (getLine nd) (getCol nd) (getContent nd) e1 \<and>
                 (\<not> handled nd \<longrightarrow> s = T') \<and>
                 (keepsNodes failingExternals \<and> nodes t = nodes T \<longrightarrow>
                    nodes s = nodes T \<and>
                    nodeAt src (filter rendersNode gs ! nat (node_pos s)) nd))"
    and b: "\<forall>t ctx names nd0 out e T' ctx'.
              executeUntilAnyTagNode failingExternals t ctx names =
                Some (Returned ((nd0, out, Some e), T', ctx')) \<longrightarrow>
              e = NoEndNode names \<or>
              (\<exists>s c nd o1 e1.
                 index_at (nodes s) (node_pos s) = Returned nd \<and>
                 execute failingExternals nd s c = ((o1, Some e1), T', ctx') \<and>
                 e = BlockExecutionError (name T') (getLine nd) (getCol nd) (getContent nd) e1 \<and>
                 (\<not> handled nd \<longrightarrow> s = T') \<and>
                 (keepsNodes failingExternals \<and> nodes t = nodes T \<longrightarrow>
                    nodes s = nodes T \<and>
                    nodeAt src (filter rendersNode gs ! nat (node_pos s)) nd))"
    by (elim exE conjE) (rule that)
  from t have T: "T = T0" by (simp add: T0_def)
  from n T p(2) have "length (filter rendersNode gs) = 2"
    by (auto simp: nodesAt_def dest: list_all2_lengthD)
  with length_filter_le[of rendersNode gs] have "2 \<le> length gs" by simp
  with sg have "segments src [LiteralSeg 0 2, FilterSeg 2 9] 0 9 \<and>
      length [LiteralSeg 0 2, FilterSeg 2 9] \<le> length gs"
    by simp
  from u[rule_format, OF this]
  have "gs = [LiteralSeg 0 2, FilterSeg 2 9] @ drop (length [LiteralSeg 0 2, FilterSeg 2 9]) gs"
    by (metis append_take_drop_id)
  then obtain rest where "gs = [LiteralSeg 0 2, FilterSeg 2 9] @ rest" ..
  then have g1: "filter rendersNode gs ! 1 = FilterSeg 2 9"
    by simp
  have key: "nd = fnd \<and> e1 = Message ''evaluation failed'' \<and>
             getLine nd = lineAt src 7 \<and> getCol nd = colAt src 7"
    if s: "index_at (nodes s) (node_pos s) = Returned nd"
      "execute failingExternals nd s c = ((o1, Some e1), S', c1)"
      "\<not> handled nd \<longrightarrow> s = S'"
      "nodes s = nodes T"
      "nodeAt src (filter rendersNode gs ! nat (node_pos s)) nd"
      "node_pos S' = 1"
    for s c nd o1 e1 S' c1
  proof -
    from s(1,4) T p(2) have "nd \<in> {ContentNode 1 5 ''ab'', fnd}"
      using index_at_mem[of "nodes s" "node_pos s" nd] by simp
    then have "\<not> handled nd" by (auto simp: fnd_def)
    with s(3) have st: "s = S'" by simp
    with s(1,4,6) T p(2) have nd: "nd = fnd"
      by (simp add: index_at_def)
    from s(2) nd have e1: "e1 = Message ''evaluation failed''"
      by (simp add: fnd_def failingExternals_def demoExternals_def)
    from s(5,6) st g1 nd have "nodeAt src (FilterSeg 2 9) fnd"
      by simp
    then have "getLine nd = lineAt src 7" "getCol nd = colAt src 7"
      using nd by (simp_all add: nodeAt_def)
    with nd e1 show ?thesis by simp
  qed
  from d[rule_format, OF ex] k T obtain s c nd o1 e1 c1 where
    s: "index_at (nodes s) (node_pos s) = Returned nd"
      "execute failingExternals nd s c = ((o1, Some e1), T', c1)"
      "e = ExecutionError (name T') (getLine nd) (getCol nd) (getContent nd) e1"
      "\<not> handled nd \<longrightarrow> s = T'"
      "nodes s = nodes T"
      "nodeAt src (filter rendersNode gs ! nat (node_pos s)) nd"
    by blast
  from key[OF s(1,2,4,5,6) np] have kk: "nd = fnd" "e1 = Message ''evaluation failed''"
    "getLine nd = lineAt src 7" "getCol nd = colAt src 7"
    by blast+
  from s(3) kk(2,3,4) have "e = ExecutionError (name T') (lineAt src 7) (colAt src 7)
      (getContent nd) (Message ''evaluation failed'')"
    by simp
  with kk(1) nm have e: "e = ExecutionError ''demo'' (lineAt src 7) (colAt src 7) ''x''
      (Message ''evaluation failed'')"
    by (simp add: fnd_def)
  from b[rule_format, OF bx] ne k T obtain s2 c3 nd2 o2 e3 where
    s2: "index_at (nodes s2) (node_pos s2) = Returned nd2"
      "execute failingExternals nd2 s2 c3 = ((o2, Some e3), T2, c2)"
      "e2 = BlockExecutionError (name T2) (getLine nd2) (getCol nd2) (getContent nd2) e3"
      "\<not> handled nd2 \<longrightarrow> s2 = T2"
      "nodes s2 = nodes T"
      "nodeAt src (filter rendersNode gs ! nat (node_pos s2)) nd2"
    by blast
  from key[OF s2(1,2,4,5,6) np2] have kk2: "nd2 = fnd" "e3 = Message ''evaluation failed''"
    "getLine nd2 = lineAt src 7" "getCol nd2 = colAt src 7"
    by blast+
  from s2(3) kk2(2,3,4) have "e2 = BlockExecutionError (name T2) (lineAt src 7) (colAt src 7)
      (getContent nd2) (Message ''evaluation failed'')"
    by simp
  with kk2(1) nm2 have e2: "e2 = BlockExecutionError ''demo'' (lineAt src 7) (colAt src 7) ''x''
      (Message ''evaluation failed'')"
    by (simp add: fnd_def)
  let ?s = "T0\<lparr>node_pos := 1\<rparr>"
  have "Some Map.empty \<noteq> (None :: string Context) \<and>
        index_at (nodes ?s) (node_pos ?s) = Returned fnd \<and>
        execute failingExternals fnd ?s (Some Map.empty) =
          ((None, Some (Message ''evaluation failed'')), ?s, Some Map.empty)"
    using p(2) by (simp add: index_at_def fnd_def failingExternals_def demoExternals_def)
  from f[rule_format, OF this] p(3)
  have fs: "Execute failingExternals ?s (Some Map.empty) =
      Some (Returned ((None, Some (ExecutionError ''demo'' 1 8 ''x''
                                     (Message ''evaluation failed''))), ?s, Some Map.empty))"
    by (simp add: fnd_def)
  from ex bx e e2 fs h k p sg lc show ?thesis
    unfolding T0_def src_def fnd_def by simp
qed

text \<open>The unterminated filter \<^verbatim>\<open>{{ x\<close> is reported at line 1, column 4, the last
  byte of the source; its first byte, the opening \<^verbatim>\<open>{\<close> at offset 0, is at line 1,
  column 1.\<close>

theorem error_position_counterexample:
  "fst (result (parse demoExternals (demoTemplate ''{{ x''))) =
     Some (ParsingError ''demo'' 1 4 ''File end reached within filter'') \<and>
   fst (result (parse demoExternals (demoTemplate ''{{ x''))) \<noteq>
     Some (ParsingError ''demo'' (lineAt ''{{ x'' 0) (colAt ''{{ x'' 0)
             ''File end reached within filter'') \<and>
   (lineAt ''{{ x'' 0, colAt ''{{ x'' 0) = (1, 1)"
  by code_simp

section \<open>Running a body until an end tag\<close>

text \<open>
  Claim C1.  With handlers that follow the cursor protocol, and the cursor on a node
  of the list (or just before or behind it), \<open>executeUntilAnyTagNode\<close> returns, and
  what it returns is the walk \<open>runUntilAnyOf\<close> over the nodes behind the calling tag:
  the cursor is first moved past the calling tag, the nodes that follow are rendered in
  order, the walk stops at the first tag node whose name is a stop name, which is not
  rendered and on which the cursor rests, and the accumulated output is returned with
  that node; otherwise the result is an error with neither node nor output, which at
  the end of the node list is ``no end-node found''.  For a body of literal text in
  front of a stop tag, the output is the list of the literals and the cursor is on the
  stop tag.
\<close>

theorem executeUntilAnyTagNode_runs:
  fixes tpl :: "('h, 'e, 'v) Template"
  assumes "cursorProtocol X (nodes tpl)"
    and "- 1 \<le> node_pos tpl" and "node_pos tpl \<le> int (length (nodes tpl))"
  shows "executeUntilAnyTagNode X tpl ctx stopNames =
           Some (runUntilAnyOf X stopNames (drop (nat (node_pos tpl + 1)) (nodes tpl))
                   (tpl\<lparr>node_pos := node_pos tpl + 1\<rparr>) ctx []) \<and>
         (case runUntilAnyOf X stopNames (drop (nat (node_pos tpl + 1)) (nodes tpl))
                 (tpl\<lparr>node_pos := node_pos tpl + 1\<rparr>) ctx [] of
            Panicked \<Rightarrow> True
          | Returned ((tn, outs, e), tpl', ctx') \<Rightarrow>
              nodes tpl' = nodes tpl \<and> node_pos tpl < node_pos tpl' \<and>
              (case e of
                 None \<Rightarrow> (\<exists>nd. tn = Some nd \<and> isEndNode nd stopNames \<and>
                             index_at (nodes tpl) (node_pos tpl') = Returned nd) \<and>
                         outs \<noteq> None
               | Some er \<Rightarrow> tn = None \<and> outs = None \<and>
                            (er = NoEndNode stopNames \<longrightarrow>
                               int (length (nodes tpl)) \<le> node_pos tpl'))) \<and>
         (\<forall>pre stop post.
            drop (nat (node_pos tpl + 1)) (nodes tpl) = pre @ stop # post \<and>
            (\<forall>nd\<in>set pre. nd = ContentNode (getLine nd) (getCol nd) (getContent nd)) \<and>
            isEndNode stop stopNames \<longrightarrow>
            executeUntilAnyTagNode X tpl ctx stopNames =
              Some (Returned ((Some stop, Some (map getContent pre), None),
                      tpl\<lparr>node_pos := node_pos tpl + 1 + int (length pre)\<rparr>, ctx)))"
proof (intro conjI allI impI)
  let ?t = "tpl\<lparr>node_pos := node_pos tpl + 1\<rparr>"
  let ?r = "runUntilAnyOf X stopNames (drop (nat (node_pos tpl + 1)) (nodes tpl)) ?t ctx []"
  from assms have a: "nodes ?t = nodes tpl" "0 \<le> node_pos ?t" by simp_all
  from executeUntilLoop_refines[OF assms(1) a, of ctx stopNames "[]"]
  have "executeUntilLoop X ?t ctx stopNames [] = Some ?r" by simp
  with assms(3) show eq: "executeUntilAnyTagNode X tpl ctx stopNames = Some ?r"
    by (simp add: executeUntilAnyTagNode_def)
  show "case ?r of
            Panicked \<Rightarrow> True
          | Returned ((tn, outs, e), tpl', ctx') \<Rightarrow>
              nodes tpl' = nodes tpl \<and> node_pos tpl < node_pos tpl' \<and>
              (case e of
                 None \<Rightarrow> (\<exists>nd. tn = Some nd \<and> isEndNode nd stopNames \<and>
                             index_at (nodes tpl) (node_pos tpl') = Returned nd) \<and>
                         outs \<noteq> None
               | Some er \<Rightarrow> tn = None \<and> outs = None \<and>
                            (er = NoEndNode stopNames \<longrightarrow>
                               int (length (nodes tpl)) \<le> node_pos tpl'))"
  proof (cases ?r)
    case Panicked
    then show ?thesis by simp
  next
    case (Returned b)
    obtain tn outs e tpl' ctx' where b: "b = ((tn, outs, e), tpl', ctx')"
      by (metis prod.exhaust)
    from Returned b have r: "?r = Returned ((tn, outs, e), tpl', ctx')" by simp
    from r have r': "runUntilAnyOf X stopNames (drop (nat (node_pos ?t)) (nodes tpl)) ?t ctx [] =
        Returned ((tn, outs, e), tpl', ctx')"
      by simp
    note sh = runUntilAnyOf_shape[OF assms(1) a r']
    from sh have n: "nodes tpl' = nodes tpl" and lt: "node_pos tpl < node_pos tpl'"
      by simp_all
    have c: "case e of
                 None \<Rightarrow> (\<exists>nd. tn = Some nd \<and> isEndNode nd stopNames \<and>
                             index_at (nodes tpl) (node_pos tpl') = Returned nd) \<and>
                         outs \<noteq> None
               | Some er \<Rightarrow> tn = None \<and> outs = None \<and>
                            (er = NoEndNode stopNames \<longrightarrow>
                               int (length (nodes tpl)) \<le> node_pos tpl')"
    proof (cases e)
      case None
      with sh show ?thesis by auto
    next
      case (Some er)
      with sh show ?thesis by simp
    qed
    from n lt c show ?thesis by (simp add: r)
  qed
  fix pre stop post
  assume h: "drop (nat (node_pos tpl + 1)) (nodes tpl) = pre @ stop # post \<and>
            (\<forall>nd\<in>set pre. nd = ContentNode (getLine nd) (getCol nd) (getContent nd)) \<and>
            isEndNode stop stopNames"
  then have h1: "drop (nat (node_pos tpl + 1)) (nodes tpl) = pre @ stop # post"
    and h2: "\<forall>nd\<in>set pre. nd = ContentNode (getLine nd) (getCol nd) (getContent nd)"
    and h3: "isEndNode stop stopNames"
    by blast+
  from runUntilAnyOf_literals[OF h2 h3, of X post ?t ctx "[]"] h1
  have "?r = Returned ((Some stop, Some (map getContent pre), None),
                      tpl\<lparr>node_pos := node_pos tpl + 1 + int (length pre)\<rparr>, ctx)"
    by simp
  with eq show "executeUntilAnyTagNode X tpl ctx stopNames =
              Some (Returned ((Some stop, Some (map getContent pre), None),
                      tpl\<lparr>node_pos := node_pos tpl + 1 + int (length pre)\<rparr>, ctx))"
    by simp
qed

theorem executeUntilAnyTagNode_runs_witness:
  "cursorProtocol demoExternals
     [TagNode 1 9 ''if c'' ''if'' ''c'' (Some 0), ContentNode 1 12 ''a'',
      FilterNode 1 15 ''x'' ''x'', TagNode 1 21 ''now'' ''now'' [] (Some 1),
      TagNode 1 32 ''endif'' ''endif'' [] None, ContentNode 1 34 ''z''] \<and>
   executeUntilAnyTagNode demoExternals
     ((demoTemplate ''{% if c %}a{{ x }}{% now %}{% endif %}z'')
        \<lparr>nodes := [TagNode 1 9 ''if c'' ''if'' ''c'' (Some 0), ContentNode 1 12 ''a'',
                   FilterNode 1 15 ''x'' ''x'', TagNode 1 21 ''now'' ''now'' [] (Some 1),
                   TagNode 1 32 ''endif'' ''endif'' [] None, ContentNode 1 34 ''z'']\<rparr>)
     None [''else'', ''endif''] =
   Some (Returned ((Some (TagNode 1 32 ''endif'' ''endif'' [] None),
                    Some [''a'', ''<x>'', ''[]''], None),
           (demoTemplate ''{% if c %}a{{ x }}{% now %}{% endif %}z'')
             \<lparr>nodes := [TagNode 1 9 ''if c'' ''if'' ''c'' (Some 0), ContentNode 1 12 ''a'',
                   FilterNode 1 15 ''x'' ''x'', TagNode 1 21 ''now'' ''now'' [] (Some 1),
                   TagNode 1 32 ''endif'' ''endif'' [] None, ContentNode 1 34 ''z''],
              node_pos := 4\<rparr>, None)) \<and>
   executeUntilAnyTagNode demoExternals
     ((demoTemplate ''{% if c %}a'')
        \<lparr>nodes := [TagNode 1 9 ''if c'' ''if'' ''c'' (Some 0), ContentNode 1 11 ''a'']\<rparr>)
     None [''else'', ''endif''] =
   Some (Returned ((None, None, Some (NoEndNode [''else'', ''endif''])),
           (demoTemplate ''{% if c %}a'')
             \<lparr>nodes := [TagNode 1 9 ''if c'' ''if'' ''c'' (Some 0), ContentNode 1 11 ''a''],
              node_pos := 2\<rparr>, None))"
proof -
  let ?N = "[TagNode 1 9 ''if c'' ''if'' ''c'' (Some 0), ContentNode 1 12 ''a'',
      FilterNode 1 15 ''x'' ''x'', TagNode 1 21 ''now'' ''now'' [] (Some 1),
      TagNode 1 32 ''endif'' ''endif'' [] None, ContentNode 1 34 ''z'']
      :: (nat, string) node list"
  let ?M = "[TagNode 1 9 ''if c'' ''if'' ''c'' (Some 0), ContentNode 1 11 ''a'']
      :: (nat, string) node list"
  let ?T = "(demoTemplate ''{% if c %}a{{ x }}{% now %}{% endif %}z'')\<lparr>nodes := ?N\<rparr>"
  let ?U = "(demoTemplate ''{% if c %}a'')\<lparr>nodes := ?M\<rparr>"
  have cp: "cursorProtocol demoExternals N" for N
    by (simp add: cursorProtocol_def demoExternals_def)
  have bT: "- 1 \<le> node_pos ?T" "node_pos ?T \<le> int (length (nodes ?T))"
    and bU: "- 1 \<le> node_pos ?U" "node_pos ?U \<le> int (length (nodes ?U))"
    by (simp_all add: demoTemplate_def)
  have np: "node_pos (demoTemplate s) = 0" for s
    by (simp add: demoTemplate_def)
  have ev: "evalString demoExternals = (\<lambda>ex ctx. ((Some (''<'' @ ex @ ''>''), None), ctx))"
    "tagExecute demoExternals = (\<lambda>h a tpl ctx. ((Some (''['' @ a @ '']''), None), tpl, ctx))"
    by (simp_all add: demoExternals_def)
  from executeUntilAnyTagNode_runs[OF cp bT, of None "[''else'', ''endif'']"]
  have "executeUntilAnyTagNode demoExternals ?T None [''else'', ''endif''] =
      Some (runUntilAnyOf demoExternals [''else'', ''endif'']
              (drop (nat (node_pos ?T + 1)) (nodes ?T))
              (?T\<lparr>node_pos := node_pos ?T + 1\<rparr>) None [])"
    by blast
  then have 1: "executeUntilAnyTagNode demoExternals ?T None [''else'', ''endif''] =
      Some (Returned ((Some (TagNode 1 32 ''endif'' ''endif'' [] None),
                    Some [''a'', ''<x>'', ''[]''], None), ?T\<lparr>node_pos := 4\<rparr>, None))"
    by (simp add: np ev isEndNode_def)
  from executeUntilAnyTagNode_runs[OF cp bU, of None "[''else'', ''endif'']"]
  have "executeUntilAnyTagNode demoExternals ?U None [''else'', ''endif''] =
      Some (runUntilAnyOf demoExternals [''else'', ''endif'']
              (drop (nat (node_pos ?U + 1)) (nodes ?U))
              (?U\<lparr>node_pos := node_pos ?U + 1\<rparr>) None [])"
    by blast
  then have 2: "executeUntilAnyTagNode demoExternals ?U None [''else'', ''endif''] =
      Some (Returned ((None, None, Some (NoEndNode [''else'', ''endif''])),
              ?U\<lparr>node_pos := 2\<rparr>, None))"
    by (simp add: np ev isEndNode_def)
  from cp 1 2 show ?thesis by simp
qed

section \<open>Skipping a body until an end tag\<close>

text \<open>
  Claim C2.  With skip notifications that follow the cursor protocol,
  \<open>ignoreUntilAnyTagNode\<close> returns, and what it returns is the walk
  \<open>skipUntilAnyOf\<close> over the nodes behind the calling tag, which depends on the skip
  notifications only: the result is the same under any other collaborators with the
  same notifications, so no render operation takes part, and skipping succeeds also
  where rendering a skipped node would fail.  The walk calls the skip notification of
  every tag node that is no stop match, when its handler has one, with that tag's
  argument text; it stops at the first tag node whose name is a stop name, on which the
  cursor rests, and returns it; at the end of the node list it fails with ``no
  end-node found''.  Where no skipped node has a notification, the node returned is
  the first stop tag behind the calling tag.
\<close>

theorem ignoreUntilAnyTagNode_skips:
  fixes tpl :: "('h, 'e, 'v) Template" and X :: "('h, 'e, 'v) externals"
  assumes "hookProtocol (tagIgnore X) (nodes tpl)" and "- 1 \<le> node_pos tpl"
  shows "ignoreUntilAnyTagNode X tpl stopNames =
           Some (Returned (skipUntilAnyOf (tagIgnore X) stopNames
                   (drop (nat (node_pos tpl + 1)) (nodes tpl))
                   (tpl\<lparr>node_pos := node_pos tpl + 1\<rparr>))) \<and>
         (\<forall>X' :: ('h, 'e, 'v) externals. tagIgnore X' = tagIgnore X \<longrightarrow>
            ignoreUntilAnyTagNode X' tpl stopNames = ignoreUntilAnyTagNode X tpl stopNames) \<and>
         (case skipUntilAnyOf (tagIgnore X) stopNames
                 (drop (nat (node_pos tpl + 1)) (nodes tpl))
                 (tpl\<lparr>node_pos := node_pos tpl + 1\<rparr>) of
            ((tn, e), tpl') \<Rightarrow>
              nodes tpl' = nodes tpl \<and> node_pos tpl < node_pos tpl' \<and>
              (case e of
                 None \<Rightarrow> (\<exists>nd. tn = Some nd \<and> isEndNode nd stopNames \<and>
                             index_at (nodes tpl) (node_pos tpl') = Returned nd)
               | Some er \<Rightarrow> tn = None \<and> er = NoEndNode stopNames \<and>
                            int (length (nodes tpl)) \<le> node_pos tpl')) \<and>
         (\<forall>pre stop post.
            drop (nat (node_pos tpl + 1)) (nodes tpl) = pre @ stop # post \<and>
            (\<forall>nd\<in>set pre. \<not> isEndNode nd stopNames \<and> (\<forall>t. notifyIgnore X nd t = t)) \<and>
            isEndNode stop stopNames \<longrightarrow>
            ignoreUntilAnyTagNode X tpl stopNames =
              Some (Returned ((Some stop, None),
                      tpl\<lparr>node_pos := node_pos tpl + 1 + int (length pre)\<rparr>)))"
proof (intro conjI allI impI)
  let ?t = "tpl\<lparr>node_pos := node_pos tpl + 1\<rparr>"
  let ?r = "skipUntilAnyOf (tagIgnore X) stopNames (drop (nat (node_pos tpl + 1)) (nodes tpl)) ?t"
  from assms have a: "nodes ?t = nodes tpl" "0 \<le> node_pos ?t" by simp_all
  have gen: "ignoreUntilAnyTagNode Y tpl stopNames = Some (Returned ?r)"
    if "tagIgnore Y = tagIgnore X" for Y :: "('h, 'e, 'v) externals"
  proof -
    from assms(1) that have "hookProtocol (tagIgnore Y) (nodes tpl)" by simp
    from ignoreUntilLoop_refines[OF this a, of stopNames] that show ?thesis
      by (simp add: ignoreUntilAnyTagNode_def)
  qed
  from gen[of X] show eq: "ignoreUntilAnyTagNode X tpl stopNames = Some (Returned ?r)"
    by simp
  show "ignoreUntilAnyTagNode X' tpl stopNames = ignoreUntilAnyTagNode X tpl stopNames"
    if "tagIgnore X' = tagIgnore X" for X' :: "('h, 'e, 'v) externals"
    using gen[OF that] eq by simp
  show "case ?r of
            ((tn, e), tpl') \<Rightarrow>
              nodes tpl' = nodes tpl \<and> node_pos tpl < node_pos tpl' \<and>
              (case e of
                 None \<Rightarrow> (\<exists>nd. tn = Some nd \<and> isEndNode nd stopNames \<and>
                             index_at (nodes tpl) (node_pos tpl') = Returned nd)
               | Some er \<Rightarrow> tn = None \<and> er = NoEndNode stopNames \<and>
                            int (length (nodes tpl)) \<le> node_pos tpl')"
  proof -
    obtain tn e tpl' where r: "?r = ((tn, e), tpl')" by (metis prod.exhaust)
    then have r': "skipUntilAnyOf (tagIgnore X) stopNames (drop (nat (node_pos ?t)) (nodes tpl)) ?t
        = ((tn, e), tpl')"
      by simp
    note sh = skipUntilAnyOf_shape[OF assms(1) a r']
    from sh have "nodes tpl' = nodes tpl" "node_pos tpl < node_pos tpl'" by simp_all
    with sh show ?thesis by (simp add: r)
  qed
  fix pre stop post
  assume h: "drop (nat (node_pos tpl + 1)) (nodes tpl) = pre @ stop # post \<and>
            (\<forall>nd\<in>set pre. \<not> isEndNode nd stopNames \<and> (\<forall>t. notifyIgnore X nd t = t)) \<and>
            isEndNode stop stopNames"
  then have h1: "drop (nat (node_pos tpl + 1)) (nodes tpl) = pre @ stop # post"
    and h2: "\<forall>nd\<in>set pre. \<not> isEndNode nd stopNames \<and> (\<forall>t. notifyIgnore X nd t = t)"
    and h3: "isEndNode stop stopNames"
    by blast+
  from skipUntilAnyOf_plain[OF h2 h3, of post ?t] h1
  have "?r = ((Some stop, None), tpl\<lparr>node_pos := node_pos tpl + 1 + int (length pre)\<rparr>)"
    by simp
  with eq show "ignoreUntilAnyTagNode X tpl stopNames =
              Some (Returned ((Some stop, None),
                      tpl\<lparr>node_pos := node_pos tpl + 1 + int (length pre)\<rparr>))"
    by simp
qed

theorem ignoreUntilAnyTagNode_skips_witness:
  "hookProtocol (tagIgnore failingExternals)
     [TagNode 1 9 ''if c'' ''if'' ''c'' (Some 0), ContentNode 1 12 ''a'',
      FilterNode 1 15 ''x'' ''x'', TagNode 1 24 ''if d'' ''if'' ''d'' (Some 0),
      TagNode 1 35 ''endif'' ''endif'' [] None, ContentNode 1 37 ''z''] \<and>
   ignoreUntilAnyTagNode failingExternals
     ((demoTemplate ''{% if c %}a{{ x }}{% if d %}{% endif %}z'')
        \<lparr>nodes := [TagNode 1 9 ''if c'' ''if'' ''c'' (Some 0), ContentNode 1 12 ''a'',
                   FilterNode 1 15 ''x'' ''x'', TagNode 1 24 ''if d'' ''if'' ''d'' (Some 0),
                   TagNode 1 35 ''endif'' ''endif'' [] None, ContentNode 1 37 ''z'']\<rparr>)
     [''else'', ''endif''] =
   Some (Returned ((Some (TagNode 1 35 ''endif'' ''endif'' [] None), None),
           (demoTemplate ''{% if c %}a{{ x }}{% if d %}{% endif %}z'')
             \<lparr>nodes := [TagNode 1 9 ''if c'' ''if'' ''c'' (Some 0), ContentNode 1 12 ''a'',
                   FilterNode 1 15 ''x'' ''x'', TagNode 1 24 ''if d'' ''if'' ''d'' (Some 0),
                   TagNode 1 35 ''endif'' ''endif'' [] None, ContentNode 1 37 ''z''],
              err := ''d'', node_pos := 4\<rparr>)) \<and>
   ignoreUntilAnyTagNode demoExternals
     ((demoTemplate ''{% if c %}a'')
        \<lparr>nodes := [TagNode 1 9 ''if c'' ''if'' ''c'' (Some 0), ContentNode 1 11 ''a'']\<rparr>)
     [''else'', ''endif''] =
   Some (Returned ((None, Some (NoEndNode [''else'', ''endif''])),
           (demoTemplate ''{% if c %}a'')
             \<lparr>nodes := [TagNode 1 9 ''if c'' ''if'' ''c'' (Some 0), ContentNode 1 11 ''a''],
              node_pos := 2\<rparr>))"
proof -
  let ?N = "[TagNode 1 9 ''if c'' ''if'' ''c'' (Some 0), ContentNode 1 12 ''a'',
      FilterNode 1 15 ''x'' ''x'', TagNode 1 24 ''if d'' ''if'' ''d'' (Some 0),
      TagNode 1 35 ''endif'' ''endif'' [] None, ContentNode 1 37 ''z'']
      :: (nat, string) node list"
  let ?M = "[TagNode 1 9 ''if c'' ''if'' ''c'' (Some 0), ContentNode 1 11 ''a'']
      :: (nat, string) node list"
  let ?T = "(demoTemplate ''{% if c %}a{{ x }}{% if d %}{% endif %}z'')\<lparr>nodes := ?N\<rparr>"
  let ?U = "(demoTemplate ''{% if c %}a'')\<lparr>nodes := ?M\<rparr>"
  have ig: "tagIgnore failingExternals =
      (\<lambda>h. if h = 0 then Some (\<lambda>a tpl. tpl\<lparr>err := a\<rparr>) else None)"
    "tagIgnore demoExternals = (\<lambda>h. None)"
    by (simp_all add: failingExternals_def demoExternals_def)
  have hp: "hookProtocol (tagIgnore failingExternals) N"
    and hq: "hookProtocol (tagIgnore demoExternals) N" for N :: "(nat, string) node list"
    by (auto simp: hookProtocol_def ig split: if_splits)
  have np: "node_pos (demoTemplate s) = 0" for s
    by (simp add: demoTemplate_def)
  have bT: "- 1 \<le> node_pos ?T" and bU: "- 1 \<le> node_pos ?U"
    by (simp_all add: np)
  from ignoreUntilAnyTagNode_skips[OF hp bT, of "[''else'', ''endif'']"]
  have "ignoreUntilAnyTagNode failingExternals ?T [''else'', ''endif''] =
      Some (Returned (skipUntilAnyOf (tagIgnore failingExternals) [''else'', ''endif'']
              (drop (nat (node_pos ?T + 1)) (nodes ?T))
              (?T\<lparr>node_pos := node_pos ?T + 1\<rparr>)))"
    by blast
  then have 1: "ignoreUntilAnyTagNode failingExternals ?T [''else'', ''endif''] =
      Some (Returned ((Some (TagNode 1 35 ''endif'' ''endif'' [] None), None),
              ?T\<lparr>err := ''d'', node_pos := 4\<rparr>))"
    by (simp add: np ig isEndNode_def)
  from ignoreUntilAnyTagNode_skips[OF hq bU, of "[''else'', ''endif'']"]
  have "ignoreUntilAnyTagNode demoExternals ?U [''else'', ''endif''] =
      Some (Returned (skipUntilAnyOf (tagIgnore demoExternals) [''else'', ''endif'']
              (drop (nat (node_pos ?U + 1)) (nodes ?U))
              (?U\<lparr>node_pos := node_pos ?U + 1\<rparr>)))"
    by blast
  then have 2: "ignoreUntilAnyTagNode demoExternals ?U [''else'', ''endif''] =
      Some (Returned ((None, Some (NoEndNode [''else'', ''endif''])), ?U\<lparr>node_pos := 2\<rparr>))"
    by (simp add: np ig isEndNode_def)
  from hp 1 2 show ?thesis by simp
qed

section \<open>Executing a template twice\<close>





end
